theory Spec2Isabelle
  imports Complex_Main
begin

section \<open>The repository sync script \<open>sync-qdrant.js\<close>\<close>

text \<open>
  The script walks the repository, splits every included file into chunks, embeds the
  chunks in batches of 100 and uploads them as points into a freshly recreated vector
  collection.  The model keeps the script's functions and names.  Three things live
  outside the script and are taken as they are seen from it:
  \<^item> the file system below \<open>__dirname\<close>: a tree of what \<open>readdir\<close>, \<open>stat\<close> and
    \<open>readFile\<close> answer;
  \<^item> the library text splitter: a parameter \<open>splitText\<close> of type
    \<open>string \<Rightarrow> string list\<close>;
  \<^item> the two remote services (vector store and embedding provider): a record of
    replies, indexed by the number of remote calls issued so far, and a state holding
    the store's collections together with the trace of calls issued.
\<close>

subsection \<open>Paths and the file system\<close>

text \<open>
  A path is the list of its components below the repository root \<open>path.resolve(__dirname)\<close>,
  root first; the root itself is \<open>[]\<close>.  \<open>readdir\<close> yields entry names, which hold no
  separator, so \<open>path.join(dirPath, item)\<close> appends one component, \<open>path.basename\<close>
  returns the last component and \<open>path.relative(root, p)\<close> is \<open>p\<close> itself.
\<close>

type_synonym fpath = "string list"

text \<open>
  What \<open>stat\<close> (which follows symbolic links) and the reads answer for an entry:
  a regular file with its utf8 content (\<open>None\<close> when \<open>readFile\<close> throws), a directory
  with its entries in \<open>readdir\<close> order, a directory on which \<open>readdir\<close> throws, an entry
  that is neither file nor directory, and an entry on which \<open>stat\<close> throws.
\<close>

datatype fsnode =
    File "string option"
  | Dir "(string \<times> fsnode) list"
  | DirUnreadable
  | Special
  | StatFails

datatype error = FsError | RemoteError

definition INCLUDE_EXTENSIONS :: "string list" where
  "INCLUDE_EXTENSIONS =
     [''.js'', ''.jsx'', ''.ts'', ''.tsx'', ''.json'', ''.yml'', ''.yaml'', ''.md'',
      ''.css'', ''.scss'', ''.html'', ''.py'', ''.go'', ''.java'', ''.c'', ''.cpp'',
      ''.h'', ''.hpp'', ''.rs'', ''.php'', ''.rb'']"

definition EXCLUDE_DIRS :: "string list" where
  "EXCLUDE_DIRS =
     [''node_modules'', ''.git'', ''dist'', ''build'', ''coverage'', ''.next'',
      ''.cache'', ''.husky'', ''.vscode'', ''.github'']"

definition basename :: "fpath \<Rightarrow> string" where
  "basename p = (if p = [] then [] else last p)"

text \<open>
  Node's \<open>path.extname\<close> on the last component: the text from the last dot on; empty
  when there is no dot, when the last dot is the first character, and for \<open>..\<close>.
\<close>

definition extname_base :: "string \<Rightarrow> string" where
  "extname_base name =
     (let ext = rev (takeWhile (\<lambda>c. c \<noteq> CHR ''.'') (rev name));
          pre = rev (drop 1 (dropWhile (\<lambda>c. c \<noteq> CHR ''.'') (rev name)))
      in if CHR ''.'' \<notin> set name \<or> pre = [] \<or> name = ''..'' then []
         else CHR ''.'' # ext)"

definition extname :: "fpath \<Rightarrow> string" where
  "extname p = extname_base (basename p)"

text \<open>\<open>String.prototype.toLowerCase\<close> on the letters \<open>A\<close> to \<open>Z\<close>; other characters stay.\<close>

definition toLowerCase_char :: "char \<Rightarrow> char" where
  "toLowerCase_char c =
     (case map_of (zip ''ABCDEFGHIJKLMNOPQRSTUVWXYZ'' ''abcdefghijklmnopqrstuvwxyz'') c of
        Some l \<Rightarrow> l
      | None \<Rightarrow> c)"

definition toLowerCase :: "string \<Rightarrow> string" where
  "toLowerCase s = map toLowerCase_char s"

definition shouldExcludeDir :: "fpath \<Rightarrow> bool" where
  "shouldExcludeDir dirPath = (let dirname = basename dirPath in dirname \<in> set EXCLUDE_DIRS)"

definition shouldIncludeFile :: "fpath \<Rightarrow> bool" where
  "shouldIncludeFile filePath =
     (let ext = toLowerCase (extname filePath) in ext \<in> set INCLUDE_EXTENSIONS)"

text \<open>
  \<open>getFiles\<close>: the loop over the entries of a directory carries the accumulator \<open>files\<close>.
  A throwing \<open>readdir\<close> or \<open>stat\<close> ends the walk with the error (the script has no handler
  inside \<open>getFiles\<close>); an excluded directory is not opened at all.
\<close>

fun getFiles :: "fpath \<Rightarrow> fsnode \<Rightarrow> error + fpath list"
and getFiles_loop :: "fpath \<Rightarrow> (string \<times> fsnode) list \<Rightarrow> fpath list \<Rightarrow> error + fpath list"
where
  "getFiles dirPath (Dir items) = getFiles_loop dirPath items []"
| "getFiles dirPath DirUnreadable = Inl FsError"
| "getFiles dirPath (File c) = Inl FsError"
| "getFiles dirPath Special = Inl FsError"
| "getFiles dirPath StatFails = Inl FsError"
| "getFiles_loop dirPath [] files = Inr files"
| "getFiles_loop dirPath ((item, node) # rest) files =
     (let itemPath = dirPath @ [item] in
      case node of
        StatFails \<Rightarrow> Inl FsError
      | Dir items \<Rightarrow>
          if \<not> shouldExcludeDir itemPath then
            (case getFiles itemPath node of
               Inl e \<Rightarrow> Inl e
             | Inr subFiles \<Rightarrow> getFiles_loop dirPath rest (files @ subFiles))
          else getFiles_loop dirPath rest files
      | DirUnreadable \<Rightarrow>
          if \<not> shouldExcludeDir itemPath then Inl FsError
          else getFiles_loop dirPath rest files
      | File c \<Rightarrow>
          if shouldIncludeFile itemPath then getFiles_loop dirPath rest (files @ [itemPath])
          else getFiles_loop dirPath rest files
      | Special \<Rightarrow> getFiles_loop dirPath rest files)"

text \<open>The entry a path names in a tree, \<open>None\<close> when there is none.\<close>

fun lookup :: "fsnode \<Rightarrow> fpath \<Rightarrow> fsnode option" where
  "lookup node [] = Some node"
| "lookup (Dir items) (x # xs) =
     (case map_of items x of None \<Rightarrow> None | Some node \<Rightarrow> lookup node xs)"
| "lookup node (x # xs) = None"

subsection \<open>Documents\<close>

record fileData =
  file_path :: fpath
  content :: string

record metadata =
  path :: fpath
  chunk :: nat
  totalChunks :: nat

record document =
  pageContent :: string
  metadata :: metadata

text \<open>
  \<open>readFileContent\<close>: a file that cannot be read is reported and yields \<open>null\<close>
  (\<open>None\<close>); the run goes on.
\<close>

definition readFileContent :: "fsnode \<Rightarrow> fpath \<Rightarrow> fileData option" where
  "readFileContent tree filePath =
     (case lookup tree filePath of
        Some (File (Some c)) \<Rightarrow> Some \<lparr>file_path = filePath, content = c\<rparr>
      | _ \<Rightarrow> None)"

text \<open>\<open>processFile\<close>: \<open>texts.map((text, i) => ...)\<close> numbers the chunks from 0.\<close>

definition processFile :: "(string \<Rightarrow> string list) \<Rightarrow> fileData option \<Rightarrow> document list" where
  "processFile splitText fileData =
     (case fileData of
        None \<Rightarrow> []
      | Some fd \<Rightarrow>
          (let texts = splitText (content fd) in
           map (\<lambda>(i, text).
                  \<lparr>pageContent = text,
                   metadata = \<lparr>path = file_path fd, chunk = i, totalChunks = length texts\<rparr>\<rparr>)
               (enumerate 0 texts)))"

subsection \<open>Points, the vector store and the embedding provider\<close>

type_synonym vector = "real list"

record payload =
  payload_text :: string
  payload_metadata :: metadata

text \<open>
  \<open>vector\<close> is \<open>embeddingResults[idx]\<close>: \<open>None\<close> stands for JavaScript's \<open>undefined\<close>,
  read when the provider returned fewer vectors than the batch has documents.
\<close>

record point =
  point_id :: nat
  vector :: "vector option"
  payload :: payload

text \<open>The remote calls the script can issue, with their arguments.\<close>

datatype call =
    GetCollections
  | DeleteCollection string
  | CreateCollection string nat
  | EmbedDocuments "string list"
  | Upsert string "point list"

datatype outcome = Ok | Threw

record collection =
  vector_size :: nat
  points :: "nat \<rightharpoonup> point"

text \<open>
  The state outside the process: the store's collections and the calls issued so far,
  each with its outcome (answered, or thrown an error).
\<close>

record world =
  collections :: "string \<rightharpoonup> collection"
  calls :: "(call \<times> outcome) list"

text \<open>
  How the services answer.  Each reply may depend on the number of remote calls issued
  before it, so a service may fail once and succeed later.  \<open>embedDocuments_reply\<close> is
  \<open>None\<close> when the provider call throws; it may return any number of vectors of any
  length.
\<close>

record remote =
  getCollections_throws :: "nat \<Rightarrow> bool"
  deleteCollection_throws :: "nat \<Rightarrow> bool"
  createCollection_throws :: "nat \<Rightarrow> bool"
  embedDocuments_reply :: "nat \<Rightarrow> string list \<Rightarrow> vector list option"
  upsert_throws :: "nat \<Rightarrow> point list \<Rightarrow> bool"

definition issue :: "call \<Rightarrow> outcome \<Rightarrow> world \<Rightarrow> world" where
  "issue c out w = w\<lparr>calls := calls w @ [(c, out)]\<rparr>"

definition getCollections :: "remote \<Rightarrow> world \<Rightarrow> world \<times> (error + (string \<Rightarrow> bool))" where
  "getCollections r w =
     (if getCollections_throws r (length (calls w))
      then (issue GetCollections Threw w, Inl RemoteError)
      else (issue GetCollections Ok w, Inr (\<lambda>name. collections w name \<noteq> None)))"

definition deleteCollection :: "remote \<Rightarrow> string \<Rightarrow> world \<Rightarrow> world \<times> (error + unit)" where
  "deleteCollection r name w =
     (if deleteCollection_throws r (length (calls w))
      then (issue (DeleteCollection name) Threw w, Inl RemoteError)
      else (issue (DeleteCollection name) Ok
              (w\<lparr>collections := (collections w)(name := None)\<rparr>),
            Inr ()))"

definition createCollection :: "remote \<Rightarrow> string \<Rightarrow> nat \<Rightarrow> world \<Rightarrow> world \<times> (error + unit)" where
  "createCollection r name n w =
     (if createCollection_throws r (length (calls w))
      then (issue (CreateCollection name n) Threw w, Inl RemoteError)
      else (issue (CreateCollection name n) Ok
              (w\<lparr>collections := (collections w)(name \<mapsto> \<lparr>vector_size = n, points = Map.empty\<rparr>)\<rparr>),
            Inr ()))"

definition embedDocuments :: "remote \<Rightarrow> string list \<Rightarrow> world \<Rightarrow> world \<times> (error + vector list)" where
  "embedDocuments r texts w =
     (case embedDocuments_reply r (length (calls w)) texts of
        None \<Rightarrow> (issue (EmbedDocuments texts) Threw w, Inl RemoteError)
      | Some vs \<Rightarrow> (issue (EmbedDocuments texts) Ok w, Inr vs))"

text \<open>
  An upsert stores each point under its id, replacing a point that has the same id; it
  throws when the collection does not exist or when the store refuses the points.
\<close>

definition upsert_points :: "point list \<Rightarrow> (nat \<rightharpoonup> point) \<Rightarrow> (nat \<rightharpoonup> point)" where
  "upsert_points ps m = foldl (\<lambda>m p. m(point_id p \<mapsto> p)) m ps"

definition upsert :: "remote \<Rightarrow> string \<Rightarrow> point list \<Rightarrow> world \<Rightarrow> world \<times> (error + unit)" where
  "upsert r name ps w =
     (case collections w name of
        None \<Rightarrow> (issue (Upsert name ps) Threw w, Inl RemoteError)
      | Some c \<Rightarrow>
          if upsert_throws r (length (calls w)) ps
          then (issue (Upsert name ps) Threw w, Inl RemoteError)
          else (issue (Upsert name ps) Ok
                  (w\<lparr>collections := (collections w)(name \<mapsto> c\<lparr>points := upsert_points ps (points c)\<rparr>)\<rparr>),
                Inr ()))"

subsection \<open>The sync coordinator\<close>

record config =
  DRY_RUN :: bool
  OPENAI_API_KEY :: "string option"
  QDRANT_API_KEY :: "string option"
  COLLECTION_NAME :: string

text \<open>JavaScript's \<open>!key\<close> for an environment variable: unset or the empty string.\<close>

definition unset :: "string option \<Rightarrow> bool" where
  "unset key = (key = None \<or> key = Some [])"

text \<open>
  A function that may call \<open>process.exit(code)\<close> returns \<open>Some code\<close> when it did, and
  \<open>None\<close> when it returned to its caller.
\<close>

definition checkRequiredAPIKeys :: "config \<Rightarrow> nat option" where
  "checkRequiredAPIKeys cfg =
     (if unset (OPENAI_API_KEY cfg) then Some 1
      else if unset (QDRANT_API_KEY cfg) then Some 1
      else None)"

definition resetCollection :: "config \<Rightarrow> remote \<Rightarrow> world \<Rightarrow> world \<times> nat option" where
  "resetCollection cfg r w =
     (if DRY_RUN cfg then (w, None)
      else
        (case getCollections r w of
           (w1, Inl e) \<Rightarrow> (w1, Some 1)
         | (w1, Inr exists) \<Rightarrow>
             (let collectionExists = exists (COLLECTION_NAME cfg) in
              case (if collectionExists then deleteCollection r (COLLECTION_NAME cfg) w1
                    else (w1, Inr ())) of
                (w2, Inl e) \<Rightarrow> (w2, Some 1)
              | (w2, Inr u) \<Rightarrow>
                  (case createCollection r (COLLECTION_NAME cfg) 1536 w2 of
                     (w3, Inl e) \<Rightarrow> (w3, Some 1)
                   | (w3, Inr u') \<Rightarrow> (w3, None)))))"

definition BATCH_SIZE :: nat where
  "BATCH_SIZE = 100"

text \<open>\<open>Array.prototype.slice(start, fin)\<close> for \<open>0 \<le> start \<le> fin\<close>; \<open>fin\<close> may lie beyond the end.\<close>

definition slice :: "'a list \<Rightarrow> nat \<Rightarrow> nat \<Rightarrow> 'a list" where
  "slice xs start fin = take (fin - start) (drop start xs)"

definition batch_points :: "nat \<Rightarrow> document list \<Rightarrow> vector list \<Rightarrow> point list" where
  "batch_points count batch embeddingResults =
     map (\<lambda>(idx, doc).
            \<lparr>point_id = count + idx,
             vector = (if idx < length embeddingResults then Some (embeddingResults ! idx)
                       else None),
             payload = \<lparr>payload_text = pageContent doc, payload_metadata = metadata doc\<rparr>\<rparr>)
         (enumerate 0 batch)"

text \<open>
  The batch loop of \<open>uploadToQdrant\<close>, with its variables \<open>i\<close> and \<open>count\<close>.  The
  surrounding \<open>try\<close>/\<open>catch\<close> only reports the error, so a throwing call ends the loop
  and the function returns normally.
\<close>

function upload_loop :: "remote \<Rightarrow> string \<Rightarrow> document list \<Rightarrow> nat \<Rightarrow> nat \<Rightarrow> world \<Rightarrow> world" where
  "upload_loop r name documents i count w =
     (if i < length documents then
        (let batch = slice documents i (i + BATCH_SIZE);
             texts = map pageContent batch
         in case embedDocuments r texts w of
              (w1, Inl e) \<Rightarrow> w1
            | (w1, Inr embeddingResults) \<Rightarrow>
                (let points = batch_points count batch embeddingResults
                 in case upsert r name points w1 of
                      (w2, Inl e) \<Rightarrow> w2
                    | (w2, Inr u) \<Rightarrow>
                        upload_loop r name documents (i + BATCH_SIZE) (count + length batch) w2))
      else w)"
  by pat_completeness auto
termination
  by (relation "measure (\<lambda>(r, name, documents, i, count, w). length documents - i)")
     (auto simp: BATCH_SIZE_def)

declare upload_loop.simps [simp del]

definition uploadToQdrant :: "config \<Rightarrow> remote \<Rightarrow> document list \<Rightarrow> world \<Rightarrow> world" where
  "uploadToQdrant cfg r documents w =
     (if DRY_RUN cfg then w else upload_loop r (COLLECTION_NAME cfg) documents 0 0 w)"

definition repoPath :: fpath where
  "repoPath = []"

text \<open>The loop of \<open>syncRepository\<close> that reads and processes every file found.\<close>

definition allDocuments_of :: "(string \<Rightarrow> string list) \<Rightarrow> fsnode \<Rightarrow> fpath list \<Rightarrow> document list" where
  "allDocuments_of splitText tree files =
     foldl (\<lambda>allDocuments file.
              allDocuments @ processFile splitText (readFileContent tree file))
           [] files"

text \<open>
  \<open>syncRepository\<close> returns the final outside state and the exit code of the process:
  1 where \<open>process.exit(1)\<close> is called, 0 when the function runs to its end.
\<close>

definition syncRepository ::
  "config \<Rightarrow> remote \<Rightarrow> (string \<Rightarrow> string list) \<Rightarrow> fsnode \<Rightarrow> world \<Rightarrow> world \<times> nat" where
  "syncRepository cfg r splitText tree w =
     (case checkRequiredAPIKeys cfg of
        Some code \<Rightarrow> (w, code)
      | None \<Rightarrow>
          (case resetCollection cfg r w of
             (w1, Some code) \<Rightarrow> (w1, code)
           | (w1, None) \<Rightarrow>
               (case getFiles repoPath tree of
                  Inl e \<Rightarrow> (w1, 1)
                | Inr files \<Rightarrow>
                    (let allDocuments = allDocuments_of splitText tree files;
                         w2 = uploadToQdrant cfg r allDocuments w1
                     in (w2, 0)))))"

subsection \<open>Auxiliary notions and example inputs\<close>

text \<open>
  A path \<open>p\<close> lies properly below \<open>dirPath\<close>, under no directory with an excluded
  name on the way down, and has an included extension.
\<close>

definition under :: "fpath \<Rightarrow> fpath \<Rightarrow> bool" where
  "under dirPath p =
     (\<exists>rel. p = dirPath @ rel \<and> rel \<noteq> [] \<and> set (butlast rel) \<inter> set EXCLUDE_DIRS = {}
        \<and> shouldIncludeFile p)"

text \<open>The payload the script builds for a document.\<close>

definition payload_of :: "document \<Rightarrow> payload" where
  "payload_of doc = \<lparr>payload_text = pageContent doc, payload_metadata = metadata doc\<rparr>"

text \<open>The points sent in the upsert calls of a trace, in the order sent.\<close>

fun upserted :: "(call \<times> outcome) list \<Rightarrow> point list" where
  "upserted [] = []"
| "upserted ((Upsert name ps, out) # cs) = ps @ upserted cs"
| "upserted (c # cs) = upserted cs"

text \<open>The calls issued between an earlier state and a later one.\<close>

definition new_calls :: "world \<Rightarrow> world \<Rightarrow> (call \<times> outcome) list" where
  "new_calls w w' = drop (length (calls w)) (calls w')"

text \<open>What identifies a point and what it carries, apart from its vector.\<close>

definition id_payload :: "point \<Rightarrow> nat \<times> payload" where
  "id_payload p = (point_id p, payload p)"

text \<open>The point stored under an id in a named collection, if any.\<close>

definition stored :: "world \<Rightarrow> string \<Rightarrow> nat \<Rightarrow> point option" where
  "stored w name j = (case collections w name of None \<Rightarrow> None | Some c \<Rightarrow> points c j)"

text \<open>Services that answer every call.\<close>

definition reliable :: "remote \<Rightarrow> bool" where
  "reliable r =
     ((\<forall>n. \<not> getCollections_throws r n) \<and> (\<forall>n. \<not> deleteCollection_throws r n)
      \<and> (\<forall>n. \<not> createCollection_throws r n)
      \<and> (\<forall>n texts. embedDocuments_reply r n texts \<noteq> None)
      \<and> (\<forall>n ps. \<not> upsert_throws r n ps))"

definition tree0 :: fsnode where
  "tree0 =
     Dir [(''node_modules'', Dir [(''x.js'', File (Some ''a''))]),
          (''src'', Dir [(''build'', Dir [(''y.ts'', File (Some ''b''))]),
                         (''Main.JS'', File (Some ''c'')),
                         (''logo.png'', File (Some ''d''))])]"

text \<open>Configurations, services, splitters, trees and states used as concrete inputs.\<close>

definition cfg0 :: config where
  "cfg0 = \<lparr>DRY_RUN = False, OPENAI_API_KEY = Some ''sk'', QDRANT_API_KEY = Some ''qk'',
           COLLECTION_NAME = ''librechat-code''\<rparr>"

definition cfg_dry :: config where
  "cfg_dry = cfg0\<lparr>DRY_RUN := True\<rparr>"

definition remote_ok :: remote where
  "remote_ok =
     \<lparr>getCollections_throws = (\<lambda>n. False), deleteCollection_throws = (\<lambda>n. False),
      createCollection_throws = (\<lambda>n. False),
      embedDocuments_reply = (\<lambda>n texts. Some (map (\<lambda>t. [1/2, 1/4]) texts)),
      upsert_throws = (\<lambda>n ps. False)\<rparr>"

definition remote_upsert_fails :: remote where
  "remote_upsert_fails = remote_ok\<lparr>upsert_throws := (\<lambda>n ps. True)\<rparr>"

definition whole :: "string \<Rightarrow> string list" where
  "whole s = (if s = [] then [] else [s])"

definition world0 :: world where
  "world0 = \<lparr>collections = Map.empty, calls = []\<rparr>"

definition tree_b :: fsnode where
  "tree_b = Dir [(''b.md'', File (Some ''beta''))]"

definition tree_ab :: fsnode where
  "tree_ab = Dir [(''a.md'', File (Some ''alpha'')), (''b.md'', File (Some ''beta''))]"

definition world1 :: world where
  "world1 = \<lparr>collections = [''librechat-code'' \<mapsto> \<lparr>vector_size = 1536, points = Map.empty\<rparr>],
             calls = [(GetCollections, Ok), (CreateCollection ''librechat-code'' 1536, Ok)]\<rparr>"

definition chars :: "string \<Rightarrow> string list" where
  "chars s = map (\<lambda>c. [c]) s"

definition tree_long :: fsnode where
  "tree_long = Dir [(''big.md'', File (Some (replicate 101 (CHR ''x''))))]"

definition docs_long :: "document list" where
  "docs_long = allDocuments_of chars tree_long [[''big.md'']]"

definition remote_second_upsert_fails :: remote where
  "remote_second_upsert_fails = remote_ok\<lparr>upsert_throws := (\<lambda>n ps. 5 \<le> n)\<rparr>"

definition vecs :: "string list \<Rightarrow> vector list" where
  "vecs texts = map (\<lambda>t. [1/2, 1/4]) texts"

definition batch1 :: "point list" where
  "batch1 = batch_points 0 (slice docs_long 0 100) (vecs (map pageContent (slice docs_long 0 100)))"

definition batch2 :: "point list" where
  "batch2 = batch_points 100 (slice docs_long 100 200) (vecs (map pageContent (slice docs_long 100 200)))"

definition world_long :: world where
  "world_long = fst (syncRepository cfg0 remote_second_upsert_fails chars tree_long world0)"

definition remote_no_vectors :: remote where
  "remote_no_vectors = remote_ok\<lparr>embedDocuments_reply := (\<lambda>n texts. Some [])\<rparr>"

definition docs_two :: "document list" where
  "docs_two =
     [\<lparr>pageContent = ''alpha'', metadata = \<lparr>path = [''a.md''], chunk = 0, totalChunks = 1\<rparr>\<rparr>,
      \<lparr>pageContent = ''beta'', metadata = \<lparr>path = [''b.md''], chunk = 0, totalChunks = 1\<rparr>\<rparr>]"

section \<open>The corpus walker\<close>

lemma under_step:
  "under (dirPath @ [item]) p \<Longrightarrow> \<not> shouldExcludeDir (dirPath @ [item]) \<Longrightarrow> under dirPath p"
  unfolding under_def shouldExcludeDir_def basename_def
  apply (elim exE conjE)
  subgoal for rel
    apply (rule exI[of _ "item # rel"])
    apply (simp add: Let_def)
    done
  done

lemma under_self: "shouldIncludeFile (dirPath @ [item]) \<Longrightarrow> under dirPath (dirPath @ [item])"
  unfolding under_def by (rule exI[of _ "[item]"]) simp

text \<open>
  The invariant of the walk, by the recursion of \<open>getFiles\<close> and its loop: whatever is in
  the accumulator, and whatever a recursive call returns, lies under the directory
  being walked, below no excluded directory, with an included extension.
\<close>

lemma getFiles_under:
  "getFiles dirPath node = Inr fs \<Longrightarrow> (\<forall>p\<in>set fs. under dirPath p)"
  "getFiles_loop dirPath items files = Inr fs \<Longrightarrow> (\<forall>p\<in>set files. under dirPath p)
     \<Longrightarrow> (\<forall>p\<in>set fs. under dirPath p)"
proof (induction dirPath node and dirPath items files arbitrary: fs and fs
       rule: getFiles_getFiles_loop.induct)
  case (1 dirPath items)
  then show ?case by simp
next
  case (6 dirPath files)
  then show ?case by simp
next
  case (7 dirPath item node rest files)
  note prems = "7.prems"
  show ?case
  proof (cases node)
    case (Dir its)
    show ?thesis
    proof (cases "shouldExcludeDir (dirPath @ [item])")
      case True
      have eq: "getFiles_loop dirPath rest files = Inr fs"
        using prems(1) Dir True by simp
      have ex: "\<not> \<not> shouldExcludeDir (dirPath @ [item])"
        using True by simp
      show ?thesis
        by (rule "7.IH"(5)[OF refl Dir ex eq prems(2)])
    next
      case False
      show ?thesis
      proof (cases "getFiles (dirPath @ [item]) node")
        case (Inl e)
        with Dir False prems(1) show ?thesis by simp
      next
        case (Inr subFiles)
        have sub: "\<forall>p\<in>set subFiles. under dirPath p"
          using "7.IH"(3)[OF refl Dir False Inr] False under_step by blast
        have eq: "getFiles_loop dirPath rest (files @ subFiles) = Inr fs"
          using prems(1) Dir False Inr by simp
        have acc: "\<forall>p\<in>set (files @ subFiles). under dirPath p"
          using sub prems(2) by auto
        show ?thesis
          by (rule "7.IH"(4)[OF refl Dir False Inr eq acc])
      qed
    qed
  next
    case (File c)
    show ?thesis
    proof (cases "shouldIncludeFile (dirPath @ [item])")
      case True
      have eq: "getFiles_loop dirPath rest (files @ [dirPath @ [item]]) = Inr fs"
        using prems(1) File True by simp
      have acc: "\<forall>p\<in>set (files @ [dirPath @ [item]]). under dirPath p"
        using prems(2) under_self[OF True] by auto
      show ?thesis
        by (rule "7.IH"(1)[OF refl File True eq acc])
    next
      case False
      have eq: "getFiles_loop dirPath rest files = Inr fs"
        using prems(1) File False by simp
      show ?thesis
        by (rule "7.IH"(2)[OF refl File False eq prems(2)])
    qed
  next
    case DirUnreadable
    show ?thesis
    proof (cases "shouldExcludeDir (dirPath @ [item])")
      case True
      have eq: "getFiles_loop dirPath rest files = Inr fs"
        using prems(1) DirUnreadable True by simp
      have ex: "\<not> \<not> shouldExcludeDir (dirPath @ [item])"
        using True by simp
      show ?thesis
        by (rule "7.IH"(6)[OF refl DirUnreadable ex eq prems(2)])
    next
      case False
      with prems(1) DirUnreadable show ?thesis by simp
    qed
  next
    case Special
    have eq: "getFiles_loop dirPath rest files = Inr fs"
      using prems(1) Special by simp
    show ?thesis
      by (rule "7.IH"(7)[OF refl Special eq prems(2)])
  next
    case StatFails
    with prems(1) show ?thesis by simp
  qed
qed simp_all

lemma getFiles_tree0: "getFiles [] tree0 = Inr [[''src'', ''Main.JS'']]"
  by (simp add: tree0_def shouldExcludeDir_def shouldIncludeFile_def basename_def extname_def
        extname_base_def toLowerCase_def toLowerCase_char_def EXCLUDE_DIRS_def
        INCLUDE_EXTENSIONS_def)

text \<open>
  Claim C8.  Every path returned by the walker lies below the walked directory with no
  directory on the way down (at any depth) named in the exclusion set, and its
  extension, lower-cased, is in the inclusion set.
\<close>

theorem getFiles_excludes_dirs_and_extensions:
  assumes "getFiles dirPath tree = Inr files" and "p \<in> set files"
  shows "\<exists>rel. p = dirPath @ rel \<and> rel \<noteq> []
           \<and> (\<forall>d\<in>set (butlast rel). d \<notin> set EXCLUDE_DIRS)
           \<and> toLowerCase (extname p) \<in> set INCLUDE_EXTENSIONS"
  using getFiles_under(1)[OF assms(1)] assms(2)
  unfolding under_def shouldIncludeFile_def Let_def by blast

theorem getFiles_excludes_dirs_and_extensions_witness:
  "getFiles [] tree0 = Inr [[''src'', ''Main.JS'']]
   \<and> [''src'', ''Main.JS''] \<in> set [[''src'', ''Main.JS'']]
   \<and> (\<exists>rel. [''src'', ''Main.JS''] = [] @ rel \<and> rel \<noteq> []
           \<and> (\<forall>d\<in>set (butlast rel). d \<notin> set EXCLUDE_DIRS)
           \<and> toLowerCase (extname [''src'', ''Main.JS'']) \<in> set INCLUDE_EXTENSIONS)"
proof -
  have h1: "getFiles [] tree0 = Inr [[''src'', ''Main.JS'']]"
    by (rule getFiles_tree0)
  have h2: "[''src'', ''Main.JS''] \<in> set [[''src'', ''Main.JS'']]"
    by simp
  show ?thesis
    using getFiles_excludes_dirs_and_extensions[OF h1 h2] h1 h2 by blast
qed

section \<open>Chunk numbering in \<open>processFile\<close>\<close>

lemma processFile_chunks:
  "map (chunk \<circ> metadata) (processFile splitText (Some fd))
     = [0..<length (splitText (content fd))]"
proof -
  have "map (chunk \<circ> metadata) (processFile splitText (Some fd))
        = map fst (enumerate 0 (splitText (content fd)))"
    by (simp add: processFile_def Let_def comp_def case_prod_unfold)
  then show ?thesis by (simp del: map_map)
qed

lemma processFile_totalChunks:
  "map (totalChunks \<circ> metadata) (processFile splitText (Some fd))
     = replicate (length (splitText (content fd))) (length (splitText (content fd)))"
  by (simp add: processFile_def Let_def comp_def case_prod_unfold map_replicate_const)

lemma processFile_length:
  "length (processFile splitText (Some fd)) = length (splitText (content fd))"
  by (simp add: processFile_def Let_def)

text \<open>
  Claim C10.  The chunks of a processed file carry the indices \<open>0, 1, \<dots>, n - 1\<close> in
  order, where \<open>n\<close> is the number of chunks produced from the file, and every one of
  them carries \<open>totalChunks = n\<close>.
\<close>

theorem processFile_indices_and_totals:
  "map (chunk \<circ> metadata) (processFile splitText (Some fd))
     = [0..<length (processFile splitText (Some fd))]
   \<and> map (totalChunks \<circ> metadata) (processFile splitText (Some fd))
     = replicate (length (processFile splitText (Some fd)))
         (length (processFile splitText (Some fd)))
   \<and> length (processFile splitText (Some fd)) = length (splitText (content fd))"
  by (simp only: processFile_chunks processFile_totalChunks processFile_length)

section \<open>The batch loop of \<open>uploadToQdrant\<close>\<close>

lemma upload_loop_done:
  "\<not> i < length documents \<Longrightarrow> upload_loop r name documents i count w = w"
  by (subst upload_loop.simps) simp

lemma upload_loop_embed_throws:
  "i < length documents \<Longrightarrow>
   embedDocuments_reply r (length (calls w)) (map pageContent (slice documents i (i + BATCH_SIZE))) = None \<Longrightarrow>
   upload_loop r name documents i count w
     = issue (EmbedDocuments (map pageContent (slice documents i (i + BATCH_SIZE)))) Threw w"
  by (subst upload_loop.simps) (simp add: embedDocuments_def Let_def)

lemma upload_loop_upsert_throws:
  "i < length documents \<Longrightarrow>
   embedDocuments_reply r (length (calls w)) (map pageContent (slice documents i (i + BATCH_SIZE))) = Some vs \<Longrightarrow>
   collections w name = None \<or> upsert_throws r (Suc (length (calls w))) (batch_points count (slice documents i (i + BATCH_SIZE)) vs) \<Longrightarrow>
   upload_loop r name documents i count w
     = issue (Upsert name (batch_points count (slice documents i (i + BATCH_SIZE)) vs)) Threw
         (issue (EmbedDocuments (map pageContent (slice documents i (i + BATCH_SIZE)))) Ok w)"
  by (subst upload_loop.simps)
     (auto simp add: embedDocuments_def upsert_def issue_def Let_def split: option.splits)

lemma upload_loop_step:
  "i < length documents \<Longrightarrow>
   embedDocuments_reply r (length (calls w)) (map pageContent (slice documents i (i + BATCH_SIZE))) = Some vs \<Longrightarrow>
   collections w name = Some c \<Longrightarrow>
   \<not> upsert_throws r (Suc (length (calls w))) (batch_points count (slice documents i (i + BATCH_SIZE)) vs) \<Longrightarrow>
   upload_loop r name documents i count w
     = upload_loop r name documents (i + BATCH_SIZE) (count + length (slice documents i (i + BATCH_SIZE)))
         (issue (Upsert name (batch_points count (slice documents i (i + BATCH_SIZE)) vs)) Ok
           ((issue (EmbedDocuments (map pageContent (slice documents i (i + BATCH_SIZE)))) Ok w)
              \<lparr>collections := (collections w)(name \<mapsto>
                 c\<lparr>points := upsert_points (batch_points count (slice documents i (i + BATCH_SIZE)) vs) (points c)\<rparr>)\<rparr>))"
  by (subst upload_loop.simps)
     (simp add: embedDocuments_def upsert_def issue_def Let_def)

lemma length_slice: "length (slice xs i (i + b)) = min b (length xs - i)"
  by (simp add: slice_def)

lemma nth_slice: "k < length (slice xs i (i + b)) \<Longrightarrow> slice xs i (i + b) ! k = xs ! (i + k)"
proof -
  assume "k < length (slice xs i (i + b))"
  then have "k < b" and "k < length xs - i"
    by (simp_all add: slice_def)
  moreover from this have "i \<le> length xs"
    by arith
  ultimately show ?thesis
    by (simp add: slice_def)
qed

lemma length_batch_points [simp]: "length (batch_points count batch vs) = length batch"
  by (simp add: batch_points_def)

lemma nth_batch_points:
  "k < length batch \<Longrightarrow>
   batch_points count batch vs ! k
     = \<lparr>point_id = count + k,
        vector = (if k < length vs then Some (vs ! k) else None),
        payload = payload_of (batch ! k)\<rparr>"
  by (simp add: batch_points_def nth_enumerate_eq payload_of_def)

lemma batch_points_ids: "map point_id (batch_points count batch vs) = [count..<count + length batch]"
  by (rule nth_equalityI) (simp_all add: nth_batch_points)

lemma id_payload_batch:
  "map id_payload (batch_points i (slice docs i (i + b)) vs)
     = map (\<lambda>j. (j, payload_of (docs ! j))) [i..<i + length (slice docs i (i + b))]"
  by (rule nth_equalityI) (simp_all add: nth_batch_points id_payload_def nth_slice)

lemma upserted_append: "upserted (cs @ ds) = upserted cs @ upserted ds"
  by (induction cs rule: upserted.induct) simp_all

lemma upload_loop_trace:
  assumes "i \<le> length docs"
  shows "\<exists>cs k. calls (upload_loop r name docs i i w) = calls w @ cs \<and> i \<le> k \<and> k \<le> length docs
           \<and> map id_payload (upserted cs) = map (\<lambda>j. (j, payload_of (docs ! j))) [i..<k]
           \<and> (\<forall>c\<in>set (butlast cs). snd c = Ok)"
  using assms
proof (induction "length docs - i" arbitrary: i w rule: less_induct)
  case less
  let ?batch = "slice docs i (i + BATCH_SIZE)"
  let ?texts = "map pageContent ?batch"
  show ?case
  proof (cases "i < length docs")
    case False
    then have "upload_loop r name docs i i w = w"
      by (rule upload_loop_done)
    then show ?thesis
      using less.prems by (intro exI[of _ "[]"] exI[of _ i]) simp
  next
    case True
    show ?thesis
    proof (cases "embedDocuments_reply r (length (calls w)) ?texts")
      case None
      have "upload_loop r name docs i i w = issue (EmbedDocuments ?texts) Threw w"
        by (rule upload_loop_embed_throws[OF True None])
      then show ?thesis
        using less.prems
        by (intro exI[of _ "[(EmbedDocuments ?texts, Threw)]"] exI[of _ i]) (simp add: issue_def)
    next
      case (Some vs)
      let ?pts = "batch_points i ?batch vs"
      have len: "i + length ?batch = min (i + BATCH_SIZE) (length docs)"
        using True by (simp add: length_slice)
      show ?thesis
      proof (cases "collections w name = None \<or> upsert_throws r (Suc (length (calls w))) ?pts")
        case True
        have "upload_loop r name docs i i w
              = issue (Upsert name ?pts) Threw (issue (EmbedDocuments ?texts) Ok w)"
          using upload_loop_upsert_throws[OF \<open>i < length docs\<close> Some True] .
        then show ?thesis
          using len
          by (intro exI[of _ "[(EmbedDocuments ?texts, Ok), (Upsert name ?pts, Threw)]"]
                exI[of _ "i + length ?batch"])
             (simp add: issue_def id_payload_batch)
      next
        case False
        then obtain c where c: "collections w name = Some c"
          and ok: "\<not> upsert_throws r (Suc (length (calls w))) ?pts"
          by auto
        define w2 where "w2 = issue (Upsert name ?pts) Ok
           ((issue (EmbedDocuments ?texts) Ok w)
              \<lparr>collections := (collections w)(name \<mapsto> c\<lparr>points := upsert_points ?pts (points c)\<rparr>)\<rparr>)"
        have step: "upload_loop r name docs i i w
                    = upload_loop r name docs (i + BATCH_SIZE) (i + length ?batch) w2"
          unfolding w2_def by (rule upload_loop_step[OF True Some c ok])
        have calls2: "calls w2 = calls w @ [(EmbedDocuments ?texts, Ok), (Upsert name ?pts, Ok)]"
          by (simp add: w2_def issue_def)
        show ?thesis
        proof (cases "i + BATCH_SIZE \<le> length docs")
          case False
          then have "upload_loop r name docs (i + BATCH_SIZE) (i + length ?batch) w2 = w2"
            by (intro upload_loop_done) simp
          with step calls2 len False show ?thesis
            by (intro exI[of _ "[(EmbedDocuments ?texts, Ok), (Upsert name ?pts, Ok)]"]
                  exI[of _ "i + length ?batch"])
               (simp add: id_payload_batch)
        next
          case le: True
          then have lb: "i + length ?batch = i + BATCH_SIZE"
            using len by simp
          have "length docs - (i + BATCH_SIZE) < length docs - i"
            using True by (simp add: BATCH_SIZE_def)
          from less.hyps[OF this le, of w2]
          obtain cs k where cs: "calls (upload_loop r name docs (i + BATCH_SIZE) (i + BATCH_SIZE) w2) = calls w2 @ cs"
            and k: "i + BATCH_SIZE \<le> k" "k \<le> length docs"
            and ids: "map id_payload (upserted cs) = map (\<lambda>j. (j, payload_of (docs ! j))) [i + BATCH_SIZE..<k]"
            and thr: "\<forall>c\<in>set (butlast cs). snd c = Ok"
            by blast
          have split: "[i..<k] = [i..<i + BATCH_SIZE] @ [i + BATCH_SIZE..<k]"
            using k(1) by (metis le_add1 le_Suc_ex upt_add_eq_append)
          show ?thesis
            apply (rule exI[of _ "[(EmbedDocuments ?texts, Ok), (Upsert name ?pts, Ok)] @ cs"])
            apply (rule exI[of _ k])
            using step lb cs calls2 k ids thr
            apply (simp add: upserted_append id_payload_batch split butlast_append)
            done
        qed
      qed
    qed
  qed
qed

lemma upsert_points_other:
  "j \<notin> point_id ` set ps \<Longrightarrow> upsert_points ps m j = m j"
  unfolding upsert_points_def by (induction ps arbitrary: m) auto

lemma upsert_points_hit:
  "distinct (map point_id ps) \<Longrightarrow> p \<in> set ps \<Longrightarrow> upsert_points ps m (point_id p) = Some p"
proof (induction ps arbitrary: m)
  case Nil
  then show ?case by simp
next
  case (Cons q ps)
  show ?case
  proof (cases "p = q")
    case True
    have "point_id q \<notin> point_id ` set ps"
      using Cons.prems(1) by auto
    then have "upsert_points ps (m(point_id q \<mapsto> q)) (point_id q) = (m(point_id q \<mapsto> q)) (point_id q)"
      by (rule upsert_points_other)
    then show ?thesis
      using True by (simp add: upsert_points_def)
  next
    case False
    then have "p \<in> set ps" using Cons.prems(2) by simp
    moreover have "distinct (map point_id ps)" using Cons.prems(1) by simp
    ultimately have "upsert_points ps (m(point_id q \<mapsto> q)) (point_id p) = Some p"
      by (rule Cons.IH[rotated])
    then show ?thesis by (simp add: upsert_points_def)
  qed
qed

lemma batch_points_id_set:
  "point_id ` set (batch_points count batch vs) = {count..<count + length batch}"
proof -
  have "point_id ` set (batch_points count batch vs) = set (map point_id (batch_points count batch vs))"
    by simp
  also have "\<dots> = {count..<count + length batch}"
    by (simp only: batch_points_ids set_upt)
  finally show ?thesis .
qed

lemma batch_points_distinct: "distinct (map point_id (batch_points count batch vs))"
  by (simp only: batch_points_ids distinct_upt)

lemma upsert_batch_other:
  "j < count \<or> count + length batch \<le> j \<Longrightarrow>
   upsert_points (batch_points count batch vs) m j = m j"
  by (rule upsert_points_other) (auto simp: batch_points_id_set)

lemma upsert_batch_hit:
  "count \<le> j \<Longrightarrow> j < count + length batch \<Longrightarrow>
   upsert_points (batch_points count batch vs) m j = Some (batch_points count batch vs ! (j - count))"
proof -
  assume a: "count \<le> j" "j < count + length batch"
  let ?p = "batch_points count batch vs ! (j - count)"
  have k: "j - count < length batch" using a by arith
  have "?p \<in> set (batch_points count batch vs)"
    using k by simp
  moreover have "point_id ?p = j"
    using a k by (simp add: nth_batch_points)
  ultimately show ?thesis
    using upsert_points_hit[OF batch_points_distinct, of ?p count batch vs m] by simp
qed

lemma upload_loop_calls:
  "i \<le> length docs \<Longrightarrow> \<exists>cs. calls (upload_loop r name docs i i w) = calls w @ cs"
  using upload_loop_trace[of i docs r name w] by blast

lemma new_calls_append: "calls w' = calls w @ cs \<Longrightarrow> new_calls w w' = cs"
  by (simp add: new_calls_def)

lemma upload_loop_keeps:
  assumes "i \<le> length docs" and "collections w name = Some c"
  shows "\<exists>c'. collections (upload_loop r name docs i i w) name = Some c'
           \<and> vector_size c' = vector_size c
           \<and> (\<forall>j. j < i \<longrightarrow> points c' j = points c j)
           \<and> (\<forall>ps. (Upsert name ps, Ok) \<in> set (new_calls w (upload_loop r name docs i i w))
                  \<longrightarrow> (\<forall>p\<in>set ps. points c' (point_id p) = Some p))"
  using assms
proof (induction "length docs - i" arbitrary: i w c rule: less_induct)
  case less
  let ?batch = "slice docs i (i + BATCH_SIZE)"
  let ?texts = "map pageContent ?batch"
  note c = less.prems(2)
  show ?case
  proof (cases "i < length docs")
    case False
    then have "upload_loop r name docs i i w = w"
      by (rule upload_loop_done)
    then show ?thesis
      using c by (simp add: new_calls_def)
  next
    case True
    show ?thesis
    proof (cases "embedDocuments_reply r (length (calls w)) ?texts")
      case None
      have "upload_loop r name docs i i w = issue (EmbedDocuments ?texts) Threw w"
        by (rule upload_loop_embed_throws[OF True None])
      then show ?thesis
        using c by (simp add: issue_def new_calls_def)
    next
      case (Some vs)
      let ?pts = "batch_points i ?batch vs"
      have len: "i + length ?batch = min (i + BATCH_SIZE) (length docs)"
        using True by (simp add: length_slice)
      show ?thesis
      proof (cases "upsert_throws r (Suc (length (calls w))) ?pts")
        case True
        then have "collections w name = None \<or> upsert_throws r (Suc (length (calls w))) ?pts"
          by simp
        from upload_loop_upsert_throws[OF \<open>i < length docs\<close> Some this]
        have "upload_loop r name docs i i w
              = issue (Upsert name ?pts) Threw (issue (EmbedDocuments ?texts) Ok w)" .
        then show ?thesis
          using c by (simp add: issue_def new_calls_def)
      next
        case ok: False
        define c2 where "c2 = c\<lparr>points := upsert_points ?pts (points c)\<rparr>"
        define w2 where "w2 = issue (Upsert name ?pts) Ok
           ((issue (EmbedDocuments ?texts) Ok w)\<lparr>collections := (collections w)(name \<mapsto> c2)\<rparr>)"
        have step: "upload_loop r name docs i i w
                    = upload_loop r name docs (i + BATCH_SIZE) (i + length ?batch) w2"
          unfolding w2_def c2_def by (rule upload_loop_step[OF True Some c ok])
        have calls2: "calls w2 = calls w @ [(EmbedDocuments ?texts, Ok), (Upsert name ?pts, Ok)]"
          by (simp add: w2_def issue_def)
        have coll2: "collections w2 name = Some c2"
          by (simp add: w2_def issue_def)
        have old2: "points c2 j = points c j" if "j < i" for j
          using that by (simp add: c2_def upsert_batch_other)
        have new2: "points c2 (point_id p) = Some p" if "p \<in> set ?pts" for p
          using that unfolding c2_def
          by (simp add: upsert_points_hit[OF batch_points_distinct])
        have vs2: "vector_size c2 = vector_size c"
          by (simp add: c2_def)
        show ?thesis
        proof (cases "i + BATCH_SIZE \<le> length docs")
          case False
          then have "upload_loop r name docs (i + BATCH_SIZE) (i + length ?batch) w2 = w2"
            by (intro upload_loop_done) simp
          with step have res: "upload_loop r name docs i i w = w2" by simp
          have nc: "new_calls w w2 = [(EmbedDocuments ?texts, Ok), (Upsert name ?pts, Ok)]"
            using calls2 by (rule new_calls_append)
          show ?thesis
            unfolding res nc using coll2 vs2 old2 new2 by simp
        next
          case le: True
          then have lb: "i + length ?batch = i + BATCH_SIZE"
            using len by simp
          have dec: "length docs - (i + BATCH_SIZE) < length docs - i"
            using True by (simp add: BATCH_SIZE_def)
          let ?w' = "upload_loop r name docs (i + BATCH_SIZE) (i + BATCH_SIZE) w2"
          have res: "upload_loop r name docs i i w = ?w'"
            using step lb by simp
          from less.hyps[OF dec le coll2]
          obtain c' where c': "collections ?w' name = Some c'"
            and vs': "vector_size c' = vector_size c2"
            and old': "\<forall>j. j < i + BATCH_SIZE \<longrightarrow> points c' j = points c2 j"
            and new': "\<forall>ps. (Upsert name ps, Ok) \<in> set (new_calls w2 ?w')
                          \<longrightarrow> (\<forall>p\<in>set ps. points c' (point_id p) = Some p)"
            by blast
          obtain cs where cs: "calls ?w' = calls w2 @ cs"
            using upload_loop_calls[OF le] by blast
          have nc2: "new_calls w2 ?w' = cs"
            using cs by (rule new_calls_append)
          have nc: "new_calls w ?w' = [(EmbedDocuments ?texts, Ok), (Upsert name ?pts, Ok)] @ cs"
            using cs calls2 by (simp add: new_calls_def)
          have ids: "point_id p < i + BATCH_SIZE" if "p \<in> set ?pts" for p
          proof -
            have "point_id p \<in> point_id ` set ?pts" using that by simp
            then show ?thesis
              unfolding batch_points_id_set using lb by simp
          qed
          have first: "points c' (point_id p) = Some p" if "p \<in> set ?pts" for p
            using old' ids[OF that] new2[OF that] by simp
          have keep: "points c' j = points c j" if "j < i" for j
            using old' old2[OF that] that by simp
          show ?thesis
            unfolding res nc using c' vs' vs2 keep first new' nc2 by auto
        qed
      qed
    qed
  qed
qed

lemma upload_loop_reliable:
  assumes "reliable r" and "i \<le> length docs" and "collections w name = Some c"
  shows "\<exists>c'. collections (upload_loop r name docs i i w) name = Some c'
           \<and> (\<forall>j. map_option id_payload (points c' j)
                    = (if i \<le> j \<and> j < length docs then Some (j, payload_of (docs ! j))
                       else map_option id_payload (points c j)))"
  using assms(2,3)
proof (induction "length docs - i" arbitrary: i w c rule: less_induct)
  case less
  let ?batch = "slice docs i (i + BATCH_SIZE)"
  let ?texts = "map pageContent ?batch"
  note c = less.prems(2)
  show ?case
  proof (cases "i < length docs")
    case False
    then have "upload_loop r name docs i i w = w"
      by (rule upload_loop_done)
    moreover have "\<not> (i \<le> j \<and> j < length docs)" for j
      using False by arith
    ultimately show ?thesis
      using c by auto
  next
    case True
    obtain vs where Some: "embedDocuments_reply r (length (calls w)) ?texts = Some vs"
      using assms(1) unfolding reliable_def by blast
    let ?pts = "batch_points i ?batch vs"
    have ok: "\<not> upsert_throws r (Suc (length (calls w))) ?pts"
      using assms(1) unfolding reliable_def by blast
    have len: "i + length ?batch = min (i + BATCH_SIZE) (length docs)"
      using True by (simp add: length_slice)
    define c2 where "c2 = c\<lparr>points := upsert_points ?pts (points c)\<rparr>"
    define w2 where "w2 = issue (Upsert name ?pts) Ok
       ((issue (EmbedDocuments ?texts) Ok w)\<lparr>collections := (collections w)(name \<mapsto> c2)\<rparr>)"
    have step: "upload_loop r name docs i i w
                = upload_loop r name docs (i + BATCH_SIZE) (i + length ?batch) w2"
      unfolding w2_def c2_def by (rule upload_loop_step[OF True Some c ok])
    have coll2: "collections w2 name = Some c2"
      by (simp add: w2_def issue_def)
    have pts2: "map_option id_payload (points c2 j)
                = (if i \<le> j \<and> j < i + length ?batch then Some (j, payload_of (docs ! j))
                   else map_option id_payload (points c j))" for j
    proof (cases "i \<le> j \<and> j < i + length ?batch")
      case True
      then have k: "j - i < length ?batch" by arith
      have "points c2 j = Some (?pts ! (j - i))"
        using True by (simp add: c2_def upsert_batch_hit)
      then show ?thesis
        using True k by (simp add: nth_batch_points id_payload_def nth_slice)
    next
      case False
      then have "j < i \<or> i + length ?batch \<le> j" by arith
      then have "points c2 j = points c j"
        by (simp add: c2_def upsert_batch_other)
      then show ?thesis using False by auto
    qed
    show ?thesis
    proof (cases "i + BATCH_SIZE \<le> length docs")
      case False
      then have "upload_loop r name docs (i + BATCH_SIZE) (i + length ?batch) w2 = w2"
        by (intro upload_loop_done) simp
      with step have res: "upload_loop r name docs i i w = w2" by simp
      have "i + length ?batch = length docs"
        using len False by simp
      then show ?thesis
        unfolding res using coll2 pts2 by simp
    next
      case le: True
      then have lb: "i + length ?batch = i + BATCH_SIZE"
        using len by simp
      have dec: "length docs - (i + BATCH_SIZE) < length docs - i"
        using True by (simp add: BATCH_SIZE_def)
      let ?w' = "upload_loop r name docs (i + BATCH_SIZE) (i + BATCH_SIZE) w2"
      have res: "upload_loop r name docs i i w = ?w'"
        using step lb by simp
      from less.hyps[OF dec le coll2]
      obtain c' where c': "collections ?w' name = Some c'"
        and new': "\<forall>j. map_option id_payload (points c' j)
                    = (if i + BATCH_SIZE \<le> j \<and> j < length docs then Some (j, payload_of (docs ! j))
                       else map_option id_payload (points c2 j))"
        by blast
      have "map_option id_payload (points c' j)
            = (if i \<le> j \<and> j < length docs then Some (j, payload_of (docs ! j))
               else map_option id_payload (points c j))" for j
        using new'[rule_format, of j] pts2[of j] lb le by auto
      then show ?thesis
        unfolding res using c' by simp
    qed
  qed
qed

lemma upload_loop_sends_all:
  assumes "reliable r" and "i \<le> length docs" and "collections w name = Some c"
  shows "\<exists>cs. calls (upload_loop r name docs i i w) = calls w @ cs
           \<and> map id_payload (upserted cs) = map (\<lambda>j. (j, payload_of (docs ! j))) [i..<length docs]"
  using assms(2,3)
proof (induction "length docs - i" arbitrary: i w c rule: less_induct)
  case less
  let ?batch = "slice docs i (i + BATCH_SIZE)"
  let ?texts = "map pageContent ?batch"
  note c = less.prems(2)
  show ?case
  proof (cases "i < length docs")
    case False
    then have "upload_loop r name docs i i w = w"
      by (rule upload_loop_done)
    moreover have "i = length docs"
      using False less.prems(1) by simp
    ultimately show ?thesis
      by (intro exI[of _ "[]"]) simp
  next
    case True
    obtain vs where Some: "embedDocuments_reply r (length (calls w)) ?texts = Some vs"
      using assms(1) unfolding reliable_def by blast
    let ?pts = "batch_points i ?batch vs"
    have ok: "\<not> upsert_throws r (Suc (length (calls w))) ?pts"
      using assms(1) unfolding reliable_def by blast
    have len: "i + length ?batch = min (i + BATCH_SIZE) (length docs)"
      using True by (simp add: length_slice)
    define w2 where "w2 = issue (Upsert name ?pts) Ok
       ((issue (EmbedDocuments ?texts) Ok w)
          \<lparr>collections := (collections w)(name \<mapsto> c\<lparr>points := upsert_points ?pts (points c)\<rparr>)\<rparr>)"
    have step: "upload_loop r name docs i i w
                = upload_loop r name docs (i + BATCH_SIZE) (i + length ?batch) w2"
      unfolding w2_def by (rule upload_loop_step[OF True Some c ok])
    have calls2: "calls w2 = calls w @ [(EmbedDocuments ?texts, Ok), (Upsert name ?pts, Ok)]"
      by (simp add: w2_def issue_def)
    have coll2: "collections w2 name = Some (c\<lparr>points := upsert_points ?pts (points c)\<rparr>)"
      by (simp add: w2_def issue_def)
    show ?thesis
    proof (cases "i + BATCH_SIZE \<le> length docs")
      case False
      then have "upload_loop r name docs (i + BATCH_SIZE) (i + length ?batch) w2 = w2"
        by (intro upload_loop_done) simp
      moreover have "i + length ?batch = length docs"
        using len False by simp
      ultimately show ?thesis
        using step calls2
        by (intro exI[of _ "[(EmbedDocuments ?texts, Ok), (Upsert name ?pts, Ok)]"])
           (simp add: id_payload_batch)
    next
      case le: True
      then have lb: "i + length ?batch = i + BATCH_SIZE"
        using len by simp
      have dec: "length docs - (i + BATCH_SIZE) < length docs - i"
        using True by (simp add: BATCH_SIZE_def)
      from less.hyps[OF dec le coll2]
      obtain cs where cs: "calls (upload_loop r name docs (i + BATCH_SIZE) (i + BATCH_SIZE) w2) = calls w2 @ cs"
        and ids: "map id_payload (upserted cs)
                  = map (\<lambda>j. (j, payload_of (docs ! j))) [i + BATCH_SIZE..<length docs]"
        by blast
      have split: "[i..<length docs] = [i..<i + BATCH_SIZE] @ [i + BATCH_SIZE..<length docs]"
        using le by (metis le_add1 le_Suc_ex upt_add_eq_append)
      show ?thesis
        apply (rule exI[of _ "[(EmbedDocuments ?texts, Ok), (Upsert name ?pts, Ok)] @ cs"])
        using step lb cs calls2 ids
        apply (simp add: upserted_append id_payload_batch split)
        done
    qed
  qed
qed

lemma resetCollection_dry: "DRY_RUN cfg \<Longrightarrow> resetCollection cfg r w = (w, None)"
  by (simp add: resetCollection_def)

lemma resetCollection_calls:
  assumes "resetCollection cfg r w = (w1, ex)"
  shows "\<exists>rs. calls w1 = calls w @ rs \<and> upserted rs = []
           \<and> (\<forall>c\<in>set (butlast rs). snd c = Ok)
           \<and> (ex = None \<longrightarrow> (\<forall>c\<in>set rs. snd c = Ok))
           \<and> (ex = None \<and> \<not> DRY_RUN cfg \<longrightarrow>
                 collections w1 (COLLECTION_NAME cfg) = Some \<lparr>vector_size = 1536, points = Map.empty\<rparr>)"
proof (cases "DRY_RUN cfg")
  case True
  with assms show ?thesis by (simp add: resetCollection_def)
next
  case False
  let ?n = "COLLECTION_NAME cfg"
  show ?thesis
  proof (cases "getCollections_throws r (length (calls w))")
    case True
    with assms False show ?thesis
      by (auto simp: resetCollection_def getCollections_def issue_def)
  next
    case g: False
    show ?thesis
    proof (cases "collections w ?n")
      case None
      show ?thesis
      proof (cases "createCollection_throws r (Suc (length (calls w)))")
        case True
        with assms False g None show ?thesis
          by (intro exI[of _ "[(GetCollections, Ok), (CreateCollection ?n 1536, Threw)]"])
             (auto simp: resetCollection_def getCollections_def createCollection_def issue_def)
      next
        case cr: False
        with assms False g None show ?thesis
          by (intro exI[of _ "[(GetCollections, Ok), (CreateCollection ?n 1536, Ok)]"])
             (auto simp: resetCollection_def getCollections_def createCollection_def issue_def)
      qed
    next
      case (Some c0)
      show ?thesis
      proof (cases "deleteCollection_throws r (Suc (length (calls w)))")
        case True
        with assms False g Some show ?thesis
          by (intro exI[of _ "[(GetCollections, Ok), (DeleteCollection ?n, Threw)]"])
             (auto simp: resetCollection_def getCollections_def deleteCollection_def issue_def)
      next
        case d: False
        show ?thesis
        proof (cases "createCollection_throws r (Suc (Suc (length (calls w))))")
          case True
          with assms False g Some d show ?thesis
            by (intro exI[of _ "[(GetCollections, Ok), (DeleteCollection ?n, Ok), (CreateCollection ?n 1536, Threw)]"])
               (auto simp: resetCollection_def getCollections_def deleteCollection_def
                  createCollection_def issue_def)
        next
          case cr: False
          with assms False g Some d show ?thesis
            by (intro exI[of _ "[(GetCollections, Ok), (DeleteCollection ?n, Ok), (CreateCollection ?n 1536, Ok)]"])
               (auto simp: resetCollection_def getCollections_def deleteCollection_def
                  createCollection_def issue_def)
        qed
      qed
    qed
  qed
qed

lemma resetCollection_reliable:
  "reliable r \<Longrightarrow> snd (resetCollection cfg r w) = None"
  by (simp add: resetCollection_def getCollections_def deleteCollection_def
        createCollection_def reliable_def Let_def)

section \<open>Runs of \<open>syncRepository\<close>\<close>

lemma upserted_member:
  "(Upsert name ps, out) \<in> set cs \<Longrightarrow> set ps \<subseteq> set (upserted cs)"
  by (induction cs rule: upserted.induct) auto

lemma sync_no_keys:
  "checkRequiredAPIKeys cfg = Some code \<Longrightarrow> syncRepository cfg r splitText tree w = (w, code)"
  by (simp add: syncRepository_def)

lemma sync_reset_exits:
  "checkRequiredAPIKeys cfg = None \<Longrightarrow> resetCollection cfg r w = (w1, Some code) \<Longrightarrow>
   syncRepository cfg r splitText tree w = (w1, code)"
  by (simp add: syncRepository_def)

lemma sync_scan_fails:
  "checkRequiredAPIKeys cfg = None \<Longrightarrow> resetCollection cfg r w = (w1, None) \<Longrightarrow>
   getFiles repoPath tree = Inl e \<Longrightarrow>
   syncRepository cfg r splitText tree w = (w1, 1)"
  by (simp add: syncRepository_def)

lemma sync_uploads:
  "checkRequiredAPIKeys cfg = None \<Longrightarrow> resetCollection cfg r w = (w1, None) \<Longrightarrow>
   getFiles repoPath tree = Inr files \<Longrightarrow>
   syncRepository cfg r splitText tree w
     = (uploadToQdrant cfg r (allDocuments_of splitText tree files) w1, 0)"
  by (simp add: syncRepository_def Let_def)

lemma new_calls_same [simp]: "new_calls w w = []"
  by (simp add: new_calls_def)

lemma no_points_in_reset:
  assumes "upserted rs = []" and "(Upsert name ps, out) \<in> set rs"
  shows "ps = []"
  using upserted_member[OF assms(2)] assms(1) by simp

lemma sync_reliable:
  assumes "\<not> DRY_RUN cfg" and "checkRequiredAPIKeys cfg = None" and "reliable r"
  shows "map_option id_payload (stored (fst (syncRepository cfg r splitText tree w)) (COLLECTION_NAME cfg) j)
         = (case getFiles repoPath tree of
              Inl e \<Rightarrow> None
            | Inr files \<Rightarrow>
                if j < length (allDocuments_of splitText tree files)
                then Some (j, payload_of (allDocuments_of splitText tree files ! j))
                else None)"
proof -
  let ?name = "COLLECTION_NAME cfg"
  obtain w1 ex where reset: "resetCollection cfg r w = (w1, ex)"
    by (cases "resetCollection cfg r w")
  have ex: "ex = None"
    using resetCollection_reliable[OF assms(3), of cfg w] reset by simp
  from resetCollection_calls[OF reset] ex assms(1)
  have c0: "collections w1 ?name = Some \<lparr>vector_size = 1536, points = Map.empty\<rparr>"
    by blast
  show ?thesis
  proof (cases "getFiles repoPath tree")
    case (Inl e)
    then have "fst (syncRepository cfg r splitText tree w) = w1"
      using assms(2) reset ex by (simp add: sync_scan_fails)
    then show ?thesis
      using c0 Inl by (simp add: stored_def)
  next
    case (Inr files)
    let ?docs = "allDocuments_of splitText tree files"
    have "fst (syncRepository cfg r splitText tree w) = upload_loop r ?name ?docs 0 0 w1"
      using assms(1,2) reset ex Inr by (simp add: sync_uploads uploadToQdrant_def)
    moreover from upload_loop_reliable[OF assms(3) _ c0, of 0 ?docs]
    obtain c' where "collections (upload_loop r ?name ?docs 0 0 w1) ?name = Some c'"
      and "\<forall>j. map_option id_payload (points c' j)
             = (if j < length ?docs then Some (j, payload_of (?docs ! j)) else None)"
      by auto
    ultimately show ?thesis
      using Inr by (simp add: stored_def)
  qed
qed

lemma stored_iff:
  "(stored w name j \<noteq> None) = (map_option id_payload (stored w name j) \<noteq> None)"
  by simp

lemma sync_reliable_count:
  assumes "\<not> DRY_RUN cfg" and "checkRequiredAPIKeys cfg = None" and "reliable r"
  shows "card {j. stored (fst (syncRepository cfg r splitText tree w)) (COLLECTION_NAME cfg) j \<noteq> None}
         = (case getFiles repoPath tree of
              Inl e \<Rightarrow> 0
            | Inr files \<Rightarrow> length (allDocuments_of splitText tree files))"
proof (cases "getFiles repoPath tree")
  case (Inl e)
  then show ?thesis
    unfolding stored_iff sync_reliable[OF assms] by simp
next
  case (Inr files)
  have "{j. j < length (allDocuments_of splitText tree files)}
        = {..<length (allDocuments_of splitText tree files)}"
    by auto
  then show ?thesis
    unfolding stored_iff sync_reliable[OF assms] using Inr by simp
qed

lemma sync_run_cases:
  fixes cfg r splitText tree w
  defines "w' \<equiv> fst (syncRepository cfg r splitText tree w)"
  obtains (no_upload) rs where "calls w' = calls w @ rs" and "upserted rs = []"
  | (upload) w1 rs files where "calls w1 = calls w @ rs" and "upserted rs = []"
      and "collections w1 (COLLECTION_NAME cfg) = Some \<lparr>vector_size = 1536, points = Map.empty\<rparr>"
      and "getFiles repoPath tree = Inr files"
      and "w' = upload_loop r (COLLECTION_NAME cfg) (allDocuments_of splitText tree files) 0 0 w1"
proof (cases "checkRequiredAPIKeys cfg")
  case (Some code)
  then have "w' = w"
    unfolding w'_def by (simp add: sync_no_keys)
  then show ?thesis
    by (intro no_upload[of "[]"]) simp_all
next
  case None
  obtain w1 ex where reset: "resetCollection cfg r w = (w1, ex)"
    by (cases "resetCollection cfg r w")
  from resetCollection_calls[OF reset]
  obtain rs where rs: "calls w1 = calls w @ rs" and nop: "upserted rs = []"
    and coll: "ex = None \<and> \<not> DRY_RUN cfg \<longrightarrow>
                 collections w1 (COLLECTION_NAME cfg) = Some \<lparr>vector_size = 1536, points = Map.empty\<rparr>"
    by blast
  have only_reset: ?thesis if "w' = w1"
    using that rs nop by (intro no_upload[of rs]) simp_all
  show ?thesis
  proof (cases ex)
    case (Some code)
    then have "w' = w1"
      unfolding w'_def using None reset by (simp add: sync_reset_exits)
    then show ?thesis by (rule only_reset)
  next
    case ex: None
    show ?thesis
    proof (cases "getFiles repoPath tree")
      case (Inl e)
      then have "w' = w1"
        unfolding w'_def using None reset ex by (simp add: sync_scan_fails)
      then show ?thesis by (rule only_reset)
    next
      case (Inr files)
      have w': "w' = uploadToQdrant cfg r (allDocuments_of splitText tree files) w1"
        unfolding w'_def using None reset ex Inr by (simp add: sync_uploads)
      show ?thesis
      proof (cases "DRY_RUN cfg")
        case True
        then have "w' = w1"
          using w' by (simp add: uploadToQdrant_def)
        then show ?thesis by (rule only_reset)
      next
        case False
        then have "w' = upload_loop r (COLLECTION_NAME cfg) (allDocuments_of splitText tree files) 0 0 w1"
          using w' by (simp add: uploadToQdrant_def)
        moreover have "collections w1 (COLLECTION_NAME cfg)
                       = Some \<lparr>vector_size = 1536, points = Map.empty\<rparr>"
          using coll ex False by simp
        ultimately show ?thesis
          using rs nop Inr by (intro upload[of w1 rs files])
      qed
    qed
  qed
qed

lemma point_id_of_id_payload: "map point_id ps = map fst (map id_payload ps)"
  by (simp add: id_payload_def comp_def)

lemma sync_sent_ids:
  "\<exists>k. map point_id (upserted (new_calls w (fst (syncRepository cfg r splitText tree w)))) = [0..<k]"
proof (cases rule: sync_run_cases[of cfg r splitText tree w])
  case (no_upload rs)
  then have "new_calls w (fst (syncRepository cfg r splitText tree w)) = rs"
    by (simp add: new_calls_def)
  then show ?thesis
    using no_upload(2) by (intro exI[of _ 0]) simp
next
  case (upload w1 rs files)
  let ?docs = "allDocuments_of splitText tree files"
  obtain cs k where cs: "calls (upload_loop r (COLLECTION_NAME cfg) ?docs 0 0 w1) = calls w1 @ cs"
    and ids: "map id_payload (upserted cs) = map (\<lambda>j. (j, payload_of (?docs ! j))) [0..<k]"
    using upload_loop_trace[of 0 ?docs r "COLLECTION_NAME cfg" w1] by auto
  have "new_calls w (fst (syncRepository cfg r splitText tree w)) = rs @ cs"
    using cs upload(1,5) by (simp add: new_calls_def)
  then have "upserted (new_calls w (fst (syncRepository cfg r splitText tree w))) = upserted cs"
    using upload(2) by (simp add: upserted_append)
  moreover have "map point_id (upserted cs) = [0..<k]"
    unfolding point_id_of_id_payload ids by (simp add: comp_def)
  ultimately show ?thesis by auto
qed

lemma sync_sent_prefix:
  assumes "getFiles repoPath tree = Inr files"
  shows "\<exists>k\<le>length (allDocuments_of splitText tree files).
           map id_payload (upserted (new_calls w (fst (syncRepository cfg r splitText tree w))))
             = map (\<lambda>j. (j, payload_of (allDocuments_of splitText tree files ! j))) [0..<k]"
proof (cases rule: sync_run_cases[of cfg r splitText tree w])
  case (no_upload rs)
  then have "new_calls w (fst (syncRepository cfg r splitText tree w)) = rs"
    by (simp add: new_calls_def)
  then show ?thesis
    using no_upload(2) by (intro exI[of _ 0]) simp
next
  case (upload w1 rs files')
  then have f: "files' = files" using assms by simp
  let ?docs = "allDocuments_of splitText tree files"
  obtain cs k where cs: "calls (upload_loop r (COLLECTION_NAME cfg) ?docs 0 0 w1) = calls w1 @ cs"
    and k: "k \<le> length ?docs"
    and ids: "map id_payload (upserted cs) = map (\<lambda>j. (j, payload_of (?docs ! j))) [0..<k]"
    using upload_loop_trace[of 0 ?docs r "COLLECTION_NAME cfg" w1] by auto
  have "new_calls w (fst (syncRepository cfg r splitText tree w)) = rs @ cs"
    using cs upload(1,5) f by (simp add: new_calls_def)
  then have "upserted (new_calls w (fst (syncRepository cfg r splitText tree w))) = upserted cs"
    using upload(2) by (simp add: upserted_append)
  then show ?thesis
    using k ids by auto
qed

lemma sync_sent_all:
  assumes "\<not> DRY_RUN cfg" and "checkRequiredAPIKeys cfg = None" and "reliable r"
    and "getFiles repoPath tree = Inr files"
  shows "map id_payload (upserted (new_calls w (fst (syncRepository cfg r splitText tree w))))
         = map (\<lambda>j. (j, payload_of (allDocuments_of splitText tree files ! j)))
             [0..<length (allDocuments_of splitText tree files)]"
proof -
  let ?name = "COLLECTION_NAME cfg"
  let ?docs = "allDocuments_of splitText tree files"
  obtain w1 ex where reset: "resetCollection cfg r w = (w1, ex)"
    by (cases "resetCollection cfg r w")
  have ex: "ex = None"
    using resetCollection_reliable[OF assms(3), of cfg w] reset by simp
  from resetCollection_calls[OF reset] ex assms(1)
  obtain rs where rs: "calls w1 = calls w @ rs" and nop: "upserted rs = []"
    and c0: "collections w1 ?name = Some \<lparr>vector_size = 1536, points = Map.empty\<rparr>"
    by blast
  have w': "fst (syncRepository cfg r splitText tree w) = upload_loop r ?name ?docs 0 0 w1"
    using assms(1,2,4) reset ex by (simp add: sync_uploads uploadToQdrant_def)
  from upload_loop_sends_all[OF assms(3) _ c0, of 0 ?docs]
  obtain cs where cs: "calls (upload_loop r ?name ?docs 0 0 w1) = calls w1 @ cs"
    and ids: "map id_payload (upserted cs) = map (\<lambda>j. (j, payload_of (?docs ! j))) [0..<length ?docs]"
    by auto
  have "new_calls w (fst (syncRepository cfg r splitText tree w)) = rs @ cs"
    using cs rs w' by (simp add: new_calls_def)
  then show ?thesis
    using nop ids by (simp add: upserted_append)
qed

lemma sync_calls_and_store:
  fixes cfg r splitText tree w
  defines "w' \<equiv> fst (syncRepository cfg r splitText tree w)"
  shows "calls w' = calls w @ new_calls w w'
         \<and> (\<forall>c\<in>set (butlast (new_calls w w')). snd c = Ok)
         \<and> (\<forall>ps. (Upsert (COLLECTION_NAME cfg) ps, Ok) \<in> set (new_calls w w')
                \<longrightarrow> (\<forall>p\<in>set ps. stored w' (COLLECTION_NAME cfg) (point_id p) = Some p))"
proof (cases "checkRequiredAPIKeys cfg")
  case (Some code)
  then have "w' = w"
    unfolding w'_def by (simp add: sync_no_keys)
  then show ?thesis by simp
next
  case None
  let ?name = "COLLECTION_NAME cfg"
  obtain w1 ex where reset: "resetCollection cfg r w = (w1, ex)"
    by (cases "resetCollection cfg r w")
  from resetCollection_calls[OF reset]
  obtain rs where rs: "calls w1 = calls w @ rs" and nop: "upserted rs = []"
    and rs_last: "\<forall>c\<in>set (butlast rs). snd c = Ok"
    and rs_ok: "ex = None \<longrightarrow> (\<forall>c\<in>set rs. snd c = Ok)"
    and coll: "ex = None \<and> \<not> DRY_RUN cfg \<longrightarrow>
                 collections w1 ?name = Some \<lparr>vector_size = 1536, points = Map.empty\<rparr>"
    by blast
  have only_reset: ?thesis if "w' = w1"
  proof -
    have nc: "new_calls w w' = rs"
      using rs that by (simp add: new_calls_def)
    have "\<forall>p\<in>set ps. stored w' ?name (point_id p) = Some p"
      if "(Upsert ?name ps, Ok) \<in> set rs" for ps
      using no_points_in_reset[OF nop that] by simp
    then show ?thesis
      unfolding nc using rs rs_last \<open>w' = w1\<close> by blast
  qed
  show ?thesis
  proof (cases ex)
    case (Some code)
    then have "w' = w1"
      unfolding w'_def using None reset by (simp add: sync_reset_exits)
    then show ?thesis by (rule only_reset)
  next
    case ex: None
    show ?thesis
    proof (cases "getFiles repoPath tree")
      case (Inl e)
      then have "w' = w1"
        unfolding w'_def using None reset ex by (simp add: sync_scan_fails)
      then show ?thesis by (rule only_reset)
    next
      case (Inr files)
      let ?docs = "allDocuments_of splitText tree files"
      have w': "w' = uploadToQdrant cfg r ?docs w1"
        unfolding w'_def using None reset ex Inr by (simp add: sync_uploads)
      show ?thesis
      proof (cases "DRY_RUN cfg")
        case True
        then have "w' = w1"
          using w' by (simp add: uploadToQdrant_def)
        then show ?thesis by (rule only_reset)
      next
        case False
        then have loop: "w' = upload_loop r ?name ?docs 0 0 w1"
          using w' by (simp add: uploadToQdrant_def)
        have c0: "collections w1 ?name = Some \<lparr>vector_size = 1536, points = Map.empty\<rparr>"
          using coll ex False by simp
        obtain cs where cs: "calls w' = calls w1 @ cs"
          and cs_last: "\<forall>c\<in>set (butlast cs). snd c = Ok"
          using upload_loop_trace[of 0 ?docs r ?name w1] loop by auto
        from upload_loop_keeps[OF _ c0, of 0 ?docs r]
        obtain c' where c': "collections w' ?name = Some c'"
          and kept: "\<forall>ps. (Upsert ?name ps, Ok) \<in> set (new_calls w1 w')
                        \<longrightarrow> (\<forall>p\<in>set ps. points c' (point_id p) = Some p)"
          using loop by auto
        have nc1: "new_calls w1 w' = cs"
          using cs by (rule new_calls_append)
        have nc: "new_calls w w' = rs @ cs"
          using cs rs by (simp add: new_calls_def)
        have a: "calls w' = calls w @ new_calls w w'"
          using cs rs nc by simp
        have b: "\<forall>c\<in>set (butlast (rs @ cs)). snd c = Ok"
          using rs_ok ex rs_last cs_last by (auto simp: butlast_append)
        have c: "\<forall>p\<in>set ps. stored w' ?name (point_id p) = Some p"
          if "(Upsert ?name ps, Ok) \<in> set (rs @ cs)" for ps
        proof (cases "(Upsert ?name ps, Ok) \<in> set rs")
          case True
          then have "ps = []" by (rule no_points_in_reset[OF nop])
          then show ?thesis by simp
        next
          case False
          then have "(Upsert ?name ps, Ok) \<in> set cs" using that by simp
          then show ?thesis
            using kept nc1 c' by (simp add: stored_def)
        qed
        show ?thesis
          unfolding nc using a b c nc by simp
      qed
    qed
  qed
qed

subsection \<open>Concrete runs\<close>

lemmas walk_defs = shouldExcludeDir_def shouldIncludeFile_def basename_def extname_def
  extname_base_def toLowerCase_def toLowerCase_char_def EXCLUDE_DIRS_def INCLUDE_EXTENSIONS_def
  repoPath_def

lemmas loop_defs = upload_loop.simps embedDocuments_def upsert_def issue_def batch_points_def
  slice_def BATCH_SIZE_def upsert_points_def

lemma getFiles_tree_b: "getFiles repoPath tree_b = Inr [[''b.md'']]"
  by (simp add: tree_b_def walk_defs)

lemma getFiles_tree_ab: "getFiles repoPath tree_ab = Inr [[''a.md''], [''b.md'']]"
  by (simp add: tree_ab_def walk_defs)

lemma docs_b: "allDocuments_of whole tree_b [[''b.md'']]
   = [\<lparr>pageContent = ''beta'', metadata = \<lparr>path = [''b.md''], chunk = 0, totalChunks = 1\<rparr>\<rparr>]"
  by (simp add: allDocuments_of_def readFileContent_def processFile_def whole_def tree_b_def)

lemma docs_ab: "allDocuments_of whole tree_ab [[''a.md''], [''b.md'']]
   = [\<lparr>pageContent = ''alpha'', metadata = \<lparr>path = [''a.md''], chunk = 0, totalChunks = 1\<rparr>\<rparr>,
      \<lparr>pageContent = ''beta'', metadata = \<lparr>path = [''b.md''], chunk = 0, totalChunks = 1\<rparr>\<rparr>]"
  by (simp add: allDocuments_of_def readFileContent_def processFile_def whole_def tree_ab_def)

lemma keys_cfg0: "checkRequiredAPIKeys cfg0 = None"
  by (simp add: checkRequiredAPIKeys_def unset_def cfg0_def)

lemma reset_world0:
  "\<not> getCollections_throws r 0 \<Longrightarrow> \<not> createCollection_throws r 1 \<Longrightarrow>
   resetCollection cfg0 r world0 = (world1, None)"
  by (simp add: resetCollection_def getCollections_def createCollection_def issue_def
        cfg0_def world0_def world1_def)

lemma run_b:
  assumes "\<not> getCollections_throws r 0" and "\<not> createCollection_throws r 1"
  shows "syncRepository cfg0 r whole tree_b world0
         = (upload_loop r ''librechat-code''
              [\<lparr>pageContent = ''beta'',
                metadata = \<lparr>path = [''b.md''], chunk = 0, totalChunks = 1\<rparr>\<rparr>] 0 0 world1, 0)"
  using sync_uploads[OF keys_cfg0 reset_world0[OF assms] getFiles_tree_b, of whole]
  by (simp add: docs_b uploadToQdrant_def cfg0_def)

lemma run_ab:
  assumes "\<not> getCollections_throws r 0" and "\<not> createCollection_throws r 1"
  shows "syncRepository cfg0 r whole tree_ab world0
         = (upload_loop r ''librechat-code''
              [\<lparr>pageContent = ''alpha'',
                metadata = \<lparr>path = [''a.md''], chunk = 0, totalChunks = 1\<rparr>\<rparr>,
               \<lparr>pageContent = ''beta'',
                metadata = \<lparr>path = [''b.md''], chunk = 0, totalChunks = 1\<rparr>\<rparr>] 0 0 world1, 0)"
  using sync_uploads[OF keys_cfg0 reset_world0[OF assms] getFiles_tree_ab, of whole]
  by (simp add: docs_ab uploadToQdrant_def cfg0_def)

lemma getFiles_tree_long: "getFiles repoPath tree_long = Inr [[''big.md'']]"
  by (simp add: tree_long_def walk_defs)

lemma length_docs_long: "length docs_long = 101"
  by (simp add: docs_long_def allDocuments_of_def readFileContent_def tree_long_def
        processFile_length chars_def)

lemma run_long:
  "syncRepository cfg0 remote_second_upsert_fails chars tree_long world0
   = (world1\<lparr>collections := (collections world1)(''librechat-code'' \<mapsto>
                 \<lparr>vector_size = 1536, points = upsert_points batch1 Map.empty\<rparr>),
             calls := calls world1 @
               [(EmbedDocuments (map pageContent (slice docs_long 0 100)), Ok),
                (Upsert ''librechat-code'' batch1, Ok),
                (EmbedDocuments (map pageContent (slice docs_long 100 200)), Ok),
                (Upsert ''librechat-code'' batch2, Threw)]\<rparr>, 0)"
proof -
  let ?r = remote_second_upsert_fails
  let ?n = "''librechat-code''"
  have g: "\<not> getCollections_throws ?r 0" and c: "\<not> createCollection_throws ?r 1"
    by (simp_all add: remote_second_upsert_fails_def remote_ok_def)
  have run: "syncRepository cfg0 ?r chars tree_long world0 = (upload_loop ?r ?n docs_long 0 0 world1, 0)"
    using sync_uploads[OF keys_cfg0 reset_world0[OF g c] getFiles_tree_long, of chars]
    by (simp add: docs_long_def uploadToQdrant_def cfg0_def)
  define w2 where "w2 = issue (Upsert ?n batch1) Ok
     ((issue (EmbedDocuments (map pageContent (slice docs_long 0 100))) Ok world1)
        \<lparr>collections := (collections world1)(?n \<mapsto>
           \<lparr>vector_size = 1536, points = Map.empty\<rparr>\<lparr>points := upsert_points batch1 (points \<lparr>vector_size = 1536, points = Map.empty\<rparr>)\<rparr>)\<rparr>)"
  have s1: "upload_loop ?r ?n docs_long 0 0 world1 = upload_loop ?r ?n docs_long 100 100 w2"
  proof -
    have a: "0 < length docs_long" by (simp add: length_docs_long)
    have b: "embedDocuments_reply ?r (length (calls world1))
               (map pageContent (slice docs_long 0 (0 + BATCH_SIZE)))
             = Some (vecs (map pageContent (slice docs_long 0 (0 + BATCH_SIZE))))"
      by (simp add: remote_second_upsert_fails_def remote_ok_def vecs_def)
    have d: "collections world1 ?n = Some \<lparr>vector_size = 1536, points = Map.empty\<rparr>"
      by (simp add: world1_def)
    have e: "\<not> upsert_throws ?r (Suc (length (calls world1)))
               (batch_points 0 (slice docs_long 0 (0 + BATCH_SIZE))
                  (vecs (map pageContent (slice docs_long 0 (0 + BATCH_SIZE)))))"
      by (simp add: remote_second_upsert_fails_def remote_ok_def world1_def)
    have l: "length (slice docs_long 0 (0 + BATCH_SIZE)) = 100"
      by (simp add: slice_def length_docs_long BATCH_SIZE_def)
    show ?thesis
      using upload_loop_step[OF a b d e] l
      by (simp add: w2_def batch1_def BATCH_SIZE_def)
  qed
  have s2: "upload_loop ?r ?n docs_long 100 100 w2
            = issue (Upsert ?n batch2) Threw
                (issue (EmbedDocuments (map pageContent (slice docs_long 100 200))) Ok w2)"
  proof -
    have a: "100 < length docs_long" by (simp add: length_docs_long)
    have b: "embedDocuments_reply ?r (length (calls w2))
               (map pageContent (slice docs_long 100 (100 + BATCH_SIZE)))
             = Some (vecs (map pageContent (slice docs_long 100 (100 + BATCH_SIZE))))"
      by (simp add: remote_second_upsert_fails_def remote_ok_def vecs_def)
    have e: "collections w2 ?n = None \<or> upsert_throws ?r (Suc (length (calls w2)))
               (batch_points 100 (slice docs_long 100 (100 + BATCH_SIZE))
                  (vecs (map pageContent (slice docs_long 100 (100 + BATCH_SIZE)))))"
      by (simp add: remote_second_upsert_fails_def remote_ok_def w2_def issue_def world1_def)
    show ?thesis
      using upload_loop_upsert_throws[OF a b e]
      by (simp add: batch2_def BATCH_SIZE_def)
  qed
  show ?thesis
    unfolding run s1 s2 by (simp add: w2_def issue_def world1_def)
qed

lemma new_calls_long:
  "new_calls world0 world_long
   = [(GetCollections, Ok), (CreateCollection ''librechat-code'' 1536, Ok),
      (EmbedDocuments (map pageContent (slice docs_long 0 100)), Ok),
      (Upsert ''librechat-code'' batch1, Ok),
      (EmbedDocuments (map pageContent (slice docs_long 100 200)), Ok),
      (Upsert ''librechat-code'' batch2, Threw)]"
  unfolding world_long_def run_long by (simp add: new_calls_def world0_def world1_def)

lemma reliable_ok: "reliable remote_ok"
  by (simp add: reliable_def remote_ok_def)

lemma reliable_no_vectors: "reliable remote_no_vectors"
  by (simp add: reliable_def remote_no_vectors_def remote_ok_def)

section \<open>Dry runs\<close>

text \<open>
  Claim C5, as the script behaves.  In a run started with \<open>--dry-run\<close> no remote call at
  all is issued: neither a mutating call (delete, create, upsert, embedding request) nor
  the read-only listing of collections; the outside state, trace included, is left as
  it was.
\<close>

theorem dry_run_issues_no_remote_call:
  "DRY_RUN cfg \<Longrightarrow> fst (syncRepository cfg r splitText tree w) = w"
  by (simp add: syncRepository_def resetCollection_def uploadToQdrant_def Let_def
        split: option.splits sum.splits)

theorem dry_run_issues_no_remote_call_witness:
  "DRY_RUN cfg_dry \<and> fst (syncRepository cfg_dry remote_ok whole tree_ab world0) = world0"
  using dry_run_issues_no_remote_call
    [where cfg = cfg_dry and r = remote_ok and splitText = whole and tree = tree_ab and w = world0]
  by (simp add: cfg_dry_def cfg0_def)

text \<open>
  Claim C5 as stated asks for the collection existence check to be performed in a dry
  run.  In a dry run with both keys set, the trace of remote calls stays empty: the
  listing of collections is skipped as well.
\<close>

theorem dry_run_skips_existence_check:
  "calls (fst (syncRepository cfg_dry remote_ok whole tree_ab world0)) = []
   \<and> snd (syncRepository cfg_dry remote_ok whole tree_ab world0) = 0"
proof -
  have k: "checkRequiredAPIKeys cfg_dry = None"
    by (simp add: checkRequiredAPIKeys_def unset_def cfg_dry_def cfg0_def)
  have r: "resetCollection cfg_dry remote_ok world0 = (world0, None)"
    by (simp add: resetCollection_def cfg_dry_def cfg0_def)
  show ?thesis
    unfolding sync_uploads[OF k r getFiles_tree_ab]
    by (simp add: uploadToQdrant_def cfg_dry_def cfg0_def world0_def)
qed

section \<open>Point ids\<close>

text \<open>
  Claim C4, as the script behaves.  In a full run over a tree whose walk succeeds, the
  points sent in the upsert calls, in the order sent, are the chunks of the run's list
  \<open>allDocuments\<close> (files in walk order, chunks in order within a file) from its start,
  and the id of each is its position in that list: \<open>0, 1, 2, \<dots>\<close>, up to where the
  upload stopped.  When the services answer every call, every chunk of the list is sent
  and stored under its position.  The id is thus fixed by the whole ordered list of
  chunks, not by the chunk's path and index alone.
\<close>

theorem point_ids_are_positions:
  fixes cfg r splitText tree w files
  defines "documents \<equiv> allDocuments_of splitText tree files"
  defines "w' \<equiv> fst (syncRepository cfg r splitText tree w)"
  assumes "\<not> DRY_RUN cfg" and "checkRequiredAPIKeys cfg = None"
    and "getFiles repoPath tree = Inr files"
  shows "(\<exists>k\<le>length documents.
            map id_payload (upserted (new_calls w w'))
              = map (\<lambda>j. (j, payload_of (documents ! j))) [0..<k])
         \<and> (reliable r \<longrightarrow>
               map id_payload (upserted (new_calls w w'))
                 = map (\<lambda>j. (j, payload_of (documents ! j))) [0..<length documents]
               \<and> (\<forall>j<length documents.
                     map_option id_payload (stored w' (COLLECTION_NAME cfg) j)
                       = Some (j, payload_of (documents ! j))))"
proof (intro conjI impI)
  show "\<exists>k\<le>length documents.
            map id_payload (upserted (new_calls w w'))
              = map (\<lambda>j. (j, payload_of (documents ! j))) [0..<k]"
    unfolding documents_def w'_def by (rule sync_sent_prefix[OF assms(5)])
next
  assume rel: "reliable r"
  show "map id_payload (upserted (new_calls w w'))
          = map (\<lambda>j. (j, payload_of (documents ! j))) [0..<length documents]"
    unfolding documents_def w'_def by (rule sync_sent_all[OF assms(3,4) rel assms(5)])
  show "\<forall>j<length documents.
          map_option id_payload (stored w' (COLLECTION_NAME cfg) j)
            = Some (j, payload_of (documents ! j))"
    unfolding documents_def w'_def
    by (simp add: sync_reliable[OF assms(3,4) rel] assms(5))
qed

theorem point_ids_are_positions_witness:
  "\<not> DRY_RUN cfg0 \<and> checkRequiredAPIKeys cfg0 = None
   \<and> getFiles repoPath tree_ab = Inr [[''a.md''], [''b.md'']]
   \<and> reliable remote_ok
   \<and> map id_payload (upserted (new_calls world0
         (fst (syncRepository cfg0 remote_ok whole tree_ab world0))))
       = [(0, \<lparr>payload_text = ''alpha'',
                payload_metadata = \<lparr>path = [''a.md''], chunk = 0, totalChunks = 1\<rparr>\<rparr>),
          (1, \<lparr>payload_text = ''beta'',
                payload_metadata = \<lparr>path = [''b.md''], chunk = 0, totalChunks = 1\<rparr>\<rparr>)]
   \<and> map_option id_payload
         (stored (fst (syncRepository cfg0 remote_ok whole tree_ab world0)) (COLLECTION_NAME cfg0) 1)
       = Some (1, \<lparr>payload_text = ''beta'',
                    payload_metadata = \<lparr>path = [''b.md''], chunk = 0, totalChunks = 1\<rparr>\<rparr>)"
proof -
  have d: "\<not> DRY_RUN cfg0" by (simp add: cfg0_def)
  note run = point_ids_are_positions[OF d keys_cfg0 getFiles_tree_ab, where r = remote_ok and splitText = whole
      and w = world0, unfolded docs_ab]
  from run reliable_ok
  have "map id_payload (upserted (new_calls world0
          (fst (syncRepository cfg0 remote_ok whole tree_ab world0))))
        = [(0, \<lparr>payload_text = ''alpha'',
                 payload_metadata = \<lparr>path = [''a.md''], chunk = 0, totalChunks = 1\<rparr>\<rparr>),
           (1, \<lparr>payload_text = ''beta'',
                 payload_metadata = \<lparr>path = [''b.md''], chunk = 0, totalChunks = 1\<rparr>\<rparr>)]"
    by (simp add: payload_of_def upt_rec)
  moreover have "map_option id_payload
          (stored (fst (syncRepository cfg0 remote_ok whole tree_ab world0)) (COLLECTION_NAME cfg0) 1)
        = Some (1, \<lparr>payload_text = ''beta'',
                     payload_metadata = \<lparr>path = [''b.md''], chunk = 0, totalChunks = 1\<rparr>\<rparr>)"
  proof -
    from run reliable_ok
    have "\<forall>j<length [\<lparr>pageContent = ''alpha'',
                        metadata = \<lparr>path = [''a.md''], chunk = 0, totalChunks = 1\<rparr>\<rparr>,
                       \<lparr>pageContent = ''beta'',
                        metadata = \<lparr>path = [''b.md''], chunk = 0, totalChunks = 1\<rparr>\<rparr>].
            map_option id_payload
              (stored (fst (syncRepository cfg0 remote_ok whole tree_ab world0))
                 (COLLECTION_NAME cfg0) j)
            = Some (j, payload_of
                 ([\<lparr>pageContent = ''alpha'',
                    metadata = \<lparr>path = [''a.md''], chunk = 0, totalChunks = 1\<rparr>\<rparr>,
                   \<lparr>pageContent = ''beta'',
                    metadata = \<lparr>path = [''b.md''], chunk = 0, totalChunks = 1\<rparr>\<rparr>] ! j))"
      by blast
    from this[rule_format, of 1] show ?thesis
      by (simp add: payload_of_def)
  qed
  ultimately show ?thesis
    using d keys_cfg0 getFiles_tree_ab reliable_ok by simp
qed

text \<open>
  Claim C4 as stated: the id depends only on (path, chunk index).  The chunk
  \<open>(b.md, 0)\<close> is stored under id 0 when \<open>b.md\<close> is the only file and under id 1 when
  \<open>a.md\<close> precedes it.
\<close>

theorem same_chunk_different_ids:
  "map_option id_payload (stored (fst (syncRepository cfg0 remote_ok whole tree_b world0)) ''librechat-code'' 0)
     = Some (0, \<lparr>payload_text = ''beta'',
                  payload_metadata = \<lparr>path = [''b.md''], chunk = 0, totalChunks = 1\<rparr>\<rparr>)
   \<and> map_option id_payload (stored (fst (syncRepository cfg0 remote_ok whole tree_ab world0)) ''librechat-code'' 1)
     = Some (1, \<lparr>payload_text = ''beta'',
                  payload_metadata = \<lparr>path = [''b.md''], chunk = 0, totalChunks = 1\<rparr>\<rparr>)"
proof -
  have g: "\<not> getCollections_throws remote_ok 0" and c: "\<not> createCollection_throws remote_ok 1"
    by (simp_all add: remote_ok_def)
  show ?thesis
    unfolding run_b[OF g c] run_ab[OF g c]
    by (simp add: loop_defs remote_ok_def world1_def stored_def id_payload_def)
qed

section \<open>Vectors returned by the provider\<close>

text \<open>
  Claim C6, as the script behaves.  There is no dimension check: whenever the provider
  answers a batch, whatever the number and the lengths of the vectors it returns, the
  upsert call for that batch is issued next, and point \<open>k\<close> of the batch carries the
  \<open>k\<close>-th returned vector unchanged (no vector when fewer were returned).
\<close>

theorem vectors_upserted_unchecked:
  assumes "i < length documents"
    and "embedDocuments_reply r (length (calls w))
           (map pageContent (slice documents i (i + BATCH_SIZE))) = Some vs"
  shows "(\<exists>out cs. calls (upload_loop r name documents i i w)
            = calls w @ [(EmbedDocuments (map pageContent (slice documents i (i + BATCH_SIZE))), Ok),
                         (Upsert name (batch_points i (slice documents i (i + BATCH_SIZE)) vs), out)] @ cs)
         \<and> map vector (batch_points i (slice documents i (i + BATCH_SIZE)) vs)
             = map (\<lambda>k. if k < length vs then Some (vs ! k) else None)
                 [0..<length (slice documents i (i + BATCH_SIZE))]"
proof
  let ?batch = "slice documents i (i + BATCH_SIZE)"
  let ?texts = "map pageContent ?batch"
  let ?pts = "batch_points i ?batch vs"
  show "\<exists>out cs. calls (upload_loop r name documents i i w)
            = calls w @ [(EmbedDocuments ?texts, Ok), (Upsert name ?pts, out)] @ cs"
  proof (cases "collections w name = None \<or> upsert_throws r (Suc (length (calls w))) ?pts")
    case True
    have "upload_loop r name documents i i w
          = issue (Upsert name ?pts) Threw (issue (EmbedDocuments ?texts) Ok w)"
      by (rule upload_loop_upsert_throws[OF assms True])
    then show ?thesis
      by (intro exI[of _ Threw] exI[of _ "[]"]) (simp add: issue_def)
  next
    case False
    then obtain c where c: "collections w name = Some c"
      and ok: "\<not> upsert_throws r (Suc (length (calls w))) ?pts"
      by auto
    define w2 where "w2 = issue (Upsert name ?pts) Ok
       ((issue (EmbedDocuments ?texts) Ok w)
          \<lparr>collections := (collections w)(name \<mapsto> c\<lparr>points := upsert_points ?pts (points c)\<rparr>)\<rparr>)"
    have step: "upload_loop r name documents i i w
                = upload_loop r name documents (i + BATCH_SIZE) (i + length ?batch) w2"
      unfolding w2_def by (rule upload_loop_step[OF assms c ok])
    have calls2: "calls w2 = calls w @ [(EmbedDocuments ?texts, Ok), (Upsert name ?pts, Ok)]"
      by (simp add: w2_def issue_def)
    show ?thesis
    proof (cases "i + BATCH_SIZE \<le> length documents")
      case False
      then have "upload_loop r name documents (i + BATCH_SIZE) (i + length ?batch) w2 = w2"
        by (intro upload_loop_done) simp
      with step calls2 show ?thesis
        by (intro exI[of _ Ok] exI[of _ "[]"]) simp
    next
      case True
      then have "i + length ?batch = i + BATCH_SIZE"
        using assms(1) by (simp add: length_slice)
      moreover obtain cs where
        "calls (upload_loop r name documents (i + BATCH_SIZE) (i + BATCH_SIZE) w2) = calls w2 @ cs"
        using upload_loop_calls[OF True] by blast
      ultimately show ?thesis
        using step calls2 by (intro exI[of _ Ok] exI[of _ cs]) simp
    qed
  qed
  show "map vector ?pts = map (\<lambda>k. if k < length vs then Some (vs ! k) else None) [0..<length ?batch]"
    by (rule nth_equalityI) (simp_all add: nth_batch_points)
qed

theorem vectors_upserted_unchecked_witness:
  "0 < length docs_two
   \<and> embedDocuments_reply remote_ok (length (calls world1))
        (map pageContent (slice docs_two 0 (0 + BATCH_SIZE))) = Some [[1/2, 1/4], [1/2, 1/4]]
   \<and> (\<exists>out cs. calls (upload_loop remote_ok ''librechat-code'' docs_two 0 0 world1)
         = calls world1 @
             [(EmbedDocuments (map pageContent (slice docs_two 0 (0 + BATCH_SIZE))), Ok),
              (Upsert ''librechat-code''
                 (batch_points 0 (slice docs_two 0 (0 + BATCH_SIZE)) [[1/2, 1/4], [1/2, 1/4]]), out)] @ cs)
   \<and> map vector (batch_points 0 (slice docs_two 0 (0 + BATCH_SIZE)) [[1/2, 1/4], [1/2, 1/4]])
       = map (\<lambda>k. if k < length [[1/2, 1/4], [1/2, 1/4::real]] then Some ([[1/2, 1/4], [1/2, 1/4]] ! k) else None)
           [0..<length (slice docs_two 0 (0 + BATCH_SIZE))]"
proof -
  have a: "0 < length docs_two"
    by (simp add: docs_two_def)
  have b: "embedDocuments_reply remote_ok (length (calls world1))
        (map pageContent (slice docs_two 0 (0 + BATCH_SIZE))) = Some [[1/2, 1/4], [1/2, 1/4]]"
    by (simp add: remote_ok_def docs_two_def slice_def BATCH_SIZE_def)
  show ?thesis
    using vectors_upserted_unchecked[OF a b, where name="''librechat-code''"] a b by blast
qed

text \<open>
  Claim C6 as stated: a vector of the wrong length aborts the run before the upsert.
  With a provider returning vectors of length 2 and a store that accepts them, the point
  is stored with that vector in the collection declared with 1536 dimensions, and the
  run ends with exit code 0.
\<close>

theorem wrong_dimension_is_upserted:
  "map_option vector (stored (fst (syncRepository cfg0 remote_ok whole tree_b world0)) ''librechat-code'' 0)
     = Some (Some [1/2, 1/4])
   \<and> map_option vector_size (collections (fst (syncRepository cfg0 remote_ok whole tree_b world0)) ''librechat-code'')
     = Some 1536
   \<and> snd (syncRepository cfg0 remote_ok whole tree_b world0) = 0"
proof -
  have g: "\<not> getCollections_throws remote_ok 0" and c: "\<not> createCollection_throws remote_ok 1"
    by (simp_all add: remote_ok_def)
  show ?thesis
    unfolding run_b[OF g c]
    by (simp add: loop_defs remote_ok_def world1_def stored_def)
qed

section \<open>Failing remote calls\<close>

text \<open>
  Claim C3, as the script behaves.  In every run, an upsert call that threw is the last
  remote call the script issues: it is not retried (no point id is ever sent twice) and
  no further call follows.  Nothing is rolled back: every point of every upsert that was
  answered is in the collection at the end of the run.
\<close>

theorem failed_upsert_is_last_and_nothing_rolled_back:
  fixes cfg r splitText tree w
  defines "w' \<equiv> fst (syncRepository cfg r splitText tree w)"
  shows "calls w' = calls w @ new_calls w w'
         \<and> (\<forall>c\<in>set (butlast (new_calls w w')). \<forall>name ps. c \<noteq> (Upsert name ps, Threw))
         \<and> distinct (map point_id (upserted (new_calls w w')))
         \<and> (\<forall>ps. (Upsert (COLLECTION_NAME cfg) ps, Ok) \<in> set (new_calls w w')
                \<longrightarrow> (\<forall>p\<in>set ps. stored w' (COLLECTION_NAME cfg) (point_id p) = Some p))"
proof -
  note run = sync_calls_and_store
    [where cfg = cfg and r = r and splitText = splitText and tree = tree and w = w, folded w'_def]
  obtain k where "map point_id (upserted (new_calls w w')) = [0..<k]"
    unfolding w'_def using sync_sent_ids by blast
  then have d: "distinct (map point_id (upserted (new_calls w w')))"
    by simp
  have "c \<noteq> (Upsert name ps, Threw)" if "c \<in> set (butlast (new_calls w w'))" for c name ps
  proof -
    have "snd c = Ok" using run that by blast
    then show ?thesis by auto
  qed
  then show ?thesis
    using run d by blast
qed

theorem failed_upsert_is_last_and_nothing_rolled_back_witness:
  "(Upsert ''librechat-code'' batch1, Ok) \<in> set (new_calls world0 world_long)
   \<and> last (new_calls world0 world_long) = (Upsert ''librechat-code'' batch2, Threw)
   \<and> (Upsert ''librechat-code'' batch2, Threw) \<notin> set (butlast (new_calls world0 world_long))
   \<and> length batch1 = 100
   \<and> point_id (batch1 ! 99) = 99
   \<and> stored world_long ''librechat-code'' 99 = Some (batch1 ! 99)
   \<and> distinct (map point_id (upserted (new_calls world0 world_long)))
   \<and> calls world_long = calls world0 @ new_calls world0 world_long"
proof -
  have m: "(Upsert (COLLECTION_NAME cfg0) batch1, Ok) \<in> set (new_calls world0 world_long)"
    by (simp add: new_calls_long cfg0_def)
  have n: "COLLECTION_NAME cfg0 = ''librechat-code''"
    by (simp add: cfg0_def)
  have l: "length batch1 = 100"
    by (simp add: batch1_def slice_def length_docs_long)
  have e: "last (new_calls world0 world_long) = (Upsert ''librechat-code'' batch2, Threw)"
    by (simp add: new_calls_long)
  have i: "point_id (batch1 ! 99) = 99"
    by (simp add: batch1_def nth_batch_points slice_def length_docs_long)
  have p: "batch1 ! 99 \<in> set batch1"
    using l by simp
  note run = failed_upsert_is_last_and_nothing_rolled_back
    [where cfg = cfg0 and r = remote_second_upsert_fails and splitText = chars
       and tree = tree_long and w = world0, folded world_long_def, unfolded n]
  from run have "calls world_long = calls world0 @ new_calls world0 world_long"
    by blast
  moreover from run
  have "(Upsert ''librechat-code'' batch2, Threw) \<notin> set (butlast (new_calls world0 world_long))"
    by blast
  moreover from run have "distinct (map point_id (upserted (new_calls world0 world_long)))"
    by blast
  moreover from run m[unfolded n] p
  have "stored world_long ''librechat-code'' (point_id (batch1 ! 99)) = Some (batch1 ! 99)"
    by blast
  ultimately show ?thesis
    using m[unfolded n] l e i by simp
qed

text \<open>
  Claim C3 as stated: a failed upsert is retried, and the run ends with a non-zero exit
  code when the retries are used up.  With a store that refuses every upsert, the trace
  holds exactly one upsert call, and the exit code is 0.
\<close>

theorem upsert_failure_no_retry_exit_zero:
  "calls (fst (syncRepository cfg0 remote_upsert_fails whole tree_b world0))
     = [(GetCollections, Ok), (CreateCollection ''librechat-code'' 1536, Ok),
        (EmbedDocuments [''beta''], Ok),
        (Upsert ''librechat-code''
           [\<lparr>point_id = 0, vector = Some [1/2, 1/4],
             payload = \<lparr>payload_text = ''beta'',
                        payload_metadata = \<lparr>path = [''b.md''], chunk = 0, totalChunks = 1\<rparr>\<rparr>\<rparr>],
         Threw)]
   \<and> snd (syncRepository cfg0 remote_upsert_fails whole tree_b world0) = 0"
proof -
  have "syncRepository cfg0 remote_upsert_fails whole tree_b world0
        = (upload_loop remote_upsert_fails ''librechat-code''
              [\<lparr>pageContent = ''beta'',
                metadata = \<lparr>path = [''b.md''], chunk = 0, totalChunks = 1\<rparr>\<rparr>] 0 0 world1, 0)"
    by (rule run_b) (simp_all add: remote_upsert_fails_def remote_ok_def)
  then show ?thesis
    by (simp add: loop_defs remote_upsert_fails_def remote_ok_def world1_def)
qed

section \<open>Rebuilding twice\<close>

text \<open>
  Claim C9.  Two full (not dry) runs, one after the other, over the same file tree with
  the same splitter and services that answer every call (they may return different
  vectors in the two runs): after the second run the collection holds as many points
  as after the first, under the same ids with the same payloads (text, path, chunk index
  and \<open>totalChunks\<close>); that number is the number of chunks of the tree when the walk
  succeeds.
\<close>

theorem full_rebuild_twice_same_points:
  fixes cfg r1 r2 splitText tree w0
  defines "w1 \<equiv> fst (syncRepository cfg r1 splitText tree w0)"
  defines "w2 \<equiv> fst (syncRepository cfg r2 splitText tree w1)"
  assumes "\<not> DRY_RUN cfg" and "checkRequiredAPIKeys cfg = None"
    and "reliable r1" and "reliable r2"
  shows "card {j. stored w2 (COLLECTION_NAME cfg) j \<noteq> None}
           = card {j. stored w1 (COLLECTION_NAME cfg) j \<noteq> None}
         \<and> (\<forall>j. map_option id_payload (stored w2 (COLLECTION_NAME cfg) j)
                 = map_option id_payload (stored w1 (COLLECTION_NAME cfg) j))
         \<and> card {j. stored w1 (COLLECTION_NAME cfg) j \<noteq> None}
             = (case getFiles repoPath tree of
                  Inl e \<Rightarrow> 0
                | Inr files \<Rightarrow> length (allDocuments_of splitText tree files))"
  unfolding w1_def w2_def
  by (simp only: sync_reliable_count[OF assms(3,4,5)] sync_reliable_count[OF assms(3,4,6)]
        sync_reliable[OF assms(3,4,5)] sync_reliable[OF assms(3,4,6)]) simp

theorem full_rebuild_twice_same_points_witness:
  "\<not> DRY_RUN cfg0 \<and> checkRequiredAPIKeys cfg0 = None
   \<and> reliable remote_ok \<and> reliable remote_no_vectors
   \<and> card {j. stored (fst (syncRepository cfg0 remote_no_vectors whole tree_ab
                 (fst (syncRepository cfg0 remote_ok whole tree_ab world0))))
               (COLLECTION_NAME cfg0) j \<noteq> None}
       = card {j. stored (fst (syncRepository cfg0 remote_ok whole tree_ab world0))
               (COLLECTION_NAME cfg0) j \<noteq> None}
   \<and> (\<forall>j. map_option id_payload
             (stored (fst (syncRepository cfg0 remote_no_vectors whole tree_ab
                 (fst (syncRepository cfg0 remote_ok whole tree_ab world0))))
               (COLLECTION_NAME cfg0) j)
           = map_option id_payload
               (stored (fst (syncRepository cfg0 remote_ok whole tree_ab world0))
                 (COLLECTION_NAME cfg0) j))
   \<and> card {j. stored (fst (syncRepository cfg0 remote_ok whole tree_ab world0))
               (COLLECTION_NAME cfg0) j \<noteq> None} = 2"
proof -
  have d: "\<not> DRY_RUN cfg0" by (simp add: cfg0_def)
  have n: "(case getFiles repoPath tree_ab of Inl e \<Rightarrow> 0
            | Inr files \<Rightarrow> length (allDocuments_of whole tree_ab files)) = 2"
    by (simp add: getFiles_tree_ab docs_ab)
  show ?thesis
    using full_rebuild_twice_same_points
      [OF d keys_cfg0 reliable_ok reliable_no_vectors,
       where splitText = whole and tree = tree_ab and ?w0.0 = world0]
      d keys_cfg0 reliable_ok reliable_no_vectors
    unfolding n by blast
qed

end
